theory Spec2Isabelle
  imports Main "HOL-Library.Word"
begin

section \<open>JavaScript strings and numbers\<close>

text \<open>
  A JavaScript string is a sequence of 16-bit code units. Literals of the source are
  written \<open>js ''...''\<close>; \<open>sq s\<close> is \<open>s\<close> between two apostrophes (U+0027), which
  the literal syntax of HOL cannot hold at the end of a string.
  Numbers of the source that hold counts, seconds and epoch milliseconds are modelled as
  unbounded integers (the source never leaves the exactly representable range with them).
\<close>

type_synonym jsstring = "16 word list"

definition js :: "string \<Rightarrow> jsstring" where
  "js s = map of_char s"

definition apos :: "16 word" where
  "apos = 0x27"

definition backslash :: "16 word" where
  "backslash = 0x5C"

definition sq :: "jsstring \<Rightarrow> jsstring" where
  "sq s = apos # s @ [apos]"

text \<open>\<open>Array.prototype.join\<close> on an array of strings.\<close>

fun join :: "jsstring \<Rightarrow> jsstring list \<Rightarrow> jsstring" where
  "join sep [] = []"
| "join sep [x] = x"
| "join sep (x # y # ys) = x @ sep @ join sep (y # ys)"

text \<open>\<open>String(n)\<close> for an integer \<open>n\<close>: decimal digits, with a minus sign below zero.\<close>

fun dec_nat :: "nat \<Rightarrow> jsstring" where
  "dec_nat n = (if n < 10 then [of_nat (48 + n)]
                else dec_nat (n div 10) @ [of_nat (48 + n mod 10)])"

declare dec_nat.simps [simp del]

definition String_of_int :: "int \<Rightarrow> jsstring" where
  "String_of_int i = (if i < 0 then 0x2D # dec_nat (nat (- i)) else dec_nat (nat i))"

text \<open>
  \<open>String.prototype.trim\<close> removes the WhiteSpace and LineTerminator code points of
  ECMAScript from both ends.
\<close>

definition is_js_space :: "16 word \<Rightarrow> bool" where
  "is_js_space c \<longleftrightarrow>
     c \<in> {0x09, 0x0A, 0x0B, 0x0C, 0x0D, 0x20, 0xA0, 0x1680, 0x2028, 0x2029, 0x202F,
          0x205F, 0x3000, 0xFEFF} \<or> (0x2000 \<le> c \<and> c \<le> 0x200A)"

definition trim :: "jsstring \<Rightarrow> jsstring" where
  "trim s = rev (dropWhile is_js_space (rev (dropWhile is_js_space s)))"

section \<open>Drive gateway: the list query (src/lib/drive.js)\<close>

text \<open>
  What the source can throw: its own \<open>new Error(message)\<close>, the
  \<open>InvalidCharacterError\<close> of \<open>btoa\<close>, the \<open>TypeError\<close> of a method call on
  \<open>undefined\<close>, and the rejections of the host (\<open>fetch\<close>, \<open>res.json()\<close>,
  \<open>crypto.subtle\<close>), which carry an opaque reason.
\<close>

datatype error =
    Error jsstring
  | InvalidCharacterError
  | TypeError
  | Rejected jsstring

definition MAX_LIST_PAGE_SIZE :: int where
  "MAX_LIST_PAGE_SIZE = 100"

text \<open>
  What \<open>TYPE_FILTERS[type]\<close> evaluates to. \<open>TYPE_FILTERS\<close> is an object literal, so
  besides its six own keys, whose values are arrays of predicates, it answers to the
  names it inherits from \<open>Object.prototype\<close>: \<open>__proto__\<close> is \<open>Object.prototype\<close>
  itself, an object without \<open>length\<close> and without \<open>join\<close>; the others are
  functions, which have a \<open>length\<close> (the number of their parameters), no \<open>join\<close> and
  no element \<open>0\<close>. Every other name is \<open>undefined\<close>.
\<close>

datatype property_value =
    Filters "jsstring list"
  | Prototype_object
  | Prototype_function nat
  | Undefined

definition TYPE_FILTERS :: "jsstring \<Rightarrow> property_value" where
  "TYPE_FILTERS t =
    (if t = js ''images'' then Filters [js ''mimeType contains '' @ sq (js ''image/'')]
     else if t = js ''video'' then Filters [js ''mimeType contains '' @ sq (js ''video/'')]
     else if t = js ''audio'' then Filters [js ''mimeType contains '' @ sq (js ''audio/'')]
     else if t = js ''documents'' then Filters
       [js ''mimeType = '' @ sq (js ''application/pdf''),
        js ''mimeType contains '' @ sq (js ''text/''),
        js ''mimeType contains '' @ sq (js ''application/msword''),
        js ''mimeType contains '' @ sq (js ''application/vnd.openxmlformats-officedocument''),
        js ''mimeType contains '' @ sq (js ''application/vnd.google-apps.document''),
        js ''mimeType contains '' @ sq (js ''application/vnd.google-apps.presentation''),
        js ''mimeType contains '' @ sq (js ''application/vnd.google-apps.spreadsheet'')]
     else if t = js ''code'' then Filters
       [js ''mimeType = '' @ sq (js ''application/javascript''),
        js ''mimeType = '' @ sq (js ''application/x-javascript''),
        js ''mimeType = '' @ sq (js ''text/css''),
        js ''mimeType = '' @ sq (js ''text/html''),
        js ''mimeType contains '' @ sq (js ''text/x-''),
        js ''mimeType contains '' @ sq (js ''application/json'')]
     else if t = js ''data'' then Filters
       [js ''mimeType = '' @ sq (js ''text/csv''),
        js ''mimeType = '' @ sq (js ''application/csv''),
        js ''mimeType contains '' @ sq (js ''spreadsheet''),
        js ''mimeType contains '' @ sq (js ''application/vnd.ms-excel''),
        js ''mimeType contains '' @ sq (js ''application/vnd.google-apps.spreadsheet''),
        js ''mimeType = '' @ sq (js ''application/json'')]
     else if t = js ''__proto__'' then Prototype_object
     else if t = js ''constructor'' \<or> t = js ''hasOwnProperty'' \<or> t = js ''isPrototypeOf''
          \<or> t = js ''propertyIsEnumerable'' \<or> t = js ''__lookupGetter__''
          \<or> t = js ''__lookupSetter__'' then Prototype_function 1
     else if t = js ''toString'' \<or> t = js ''toLocaleString'' \<or> t = js ''valueOf''
       then Prototype_function 0
     else if t = js ''__defineGetter__'' \<or> t = js ''__defineSetter__'' then Prototype_function 2
     else Undefined)"

text \<open>
  \<open>buildTypeClause(type)\<close>; \<open>None\<close> is an \<open>undefined\<close> type, and the empty string is
  falsy as well. The result is a string, or \<open>undefined\<close> (\<open>None\<close>) when \<open>filters[0]\<close>
  is read from an inherited function of length 1; \<open>filters.join\<close> is not a function on
  an inherited value whose \<open>length\<close> is neither 0 nor 1, and the call throws.
\<close>

definition buildTypeClause :: "jsstring option \<Rightarrow> error + jsstring option" where
  "buildTypeClause type =
    (case type of
       None \<Rightarrow> Inr (Some [])
     | Some t \<Rightarrow>
         if t = [] then Inr (Some [])
         else (case TYPE_FILTERS t of
                 Undefined \<Rightarrow> Inr (Some [])
               | Filters filters \<Rightarrow>
                   if length filters = 0 then Inr (Some [])
                   else if length filters = 1 then Inr (Some (hd filters))
                   else Inr (Some (js ''('' @ join (js '' or '') filters @ js '')''))
               | Prototype_function n \<Rightarrow>
                   if n = 0 then Inr (Some [])
                   else if n = 1 then Inr None
                   else Inl TypeError
               | Prototype_object \<Rightarrow> Inl TypeError))"

text \<open>\<open>escapeQueryValue\<close>: \<open>value.replace(/'/g, "\\'")\<close>.\<close>

fun escapeQueryValue :: "jsstring \<Rightarrow> jsstring" where
  "escapeQueryValue [] = []"
| "escapeQueryValue (c # cs) =
     (if c = apos then backslash # apos # escapeQueryValue cs else c # escapeQueryValue cs)"

text \<open>
  \<open>String.prototype.split(sep)\<close> for a separator that is not empty; \<open>acc\<close> holds the
  current piece, reversed.
\<close>

fun split_str :: "jsstring \<Rightarrow> jsstring \<Rightarrow> jsstring \<Rightarrow> jsstring list" where
  "split_str sep acc [] = [rev acc]"
| "split_str sep acc (c # cs) =
     (if sep \<noteq> [] \<and> take (length sep) (c # cs) = sep
      then rev acc # split_str sep [] (drop (length sep) (c # cs))
      else split_str sep (c # acc) cs)"

text \<open>A value used as a condition: \<open>undefined\<close> and the empty string are falsy.\<close>

definition truthy :: "jsstring option \<Rightarrow> bool" where
  "truthy v = (case v of None \<Rightarrow> False | Some s \<Rightarrow> s \<noteq> [])"

text \<open>
  The constructor's \<open>this.parents\<close>:
  \<open>(env.DRIVE_UPLOAD_ROOT || '').split(',').map((id) => id.trim()).filter(Boolean)\<close>.
\<close>

definition parse_parents :: "jsstring option \<Rightarrow> jsstring list" where
  "parse_parents root =
     filter (\<lambda>p. p \<noteq> [])
       (map trim (split_str (js '','') [] (case root of None \<Rightarrow> [] | Some r \<Rightarrow> r)))"

definition buildParentsQuery :: "jsstring list \<Rightarrow> jsstring" where
  "buildParentsQuery parents =
    (if length parents = 0 then []
     else let clauses = map (\<lambda>parentId. sq parentId @ js '' in parents'') parents
          in if length clauses = 1 then hd clauses
             else js ''('' @ join (js '' or '') clauses @ js '')'')"

text \<open>
  The options of \<open>listFiles\<close>. \<open>None\<close> is a missing (\<open>undefined\<close>) option; the search
  option is \<open>None\<close> also when it is not a string.
\<close>

record list_options =
  pageSize :: "int option"
  pageToken :: "jsstring option"
  search :: "jsstring option"
  type :: "jsstring option"

text \<open>
  \<open>Math.min(Math.max(pageSize || 24, 1), MAX_LIST_PAGE_SIZE)\<close> after the default
  \<open>pageSize = 24\<close> of the destructuring: an absent size is 24, and so is the falsy 0.
\<close>

definition safeSize :: "int option \<Rightarrow> int" where
  "safeSize ps =
     (let pageSize = (case ps of None \<Rightarrow> 24 | Some n \<Rightarrow> n);
          sized = (if pageSize = 0 then 24 else pageSize)
      in min (max sized 1) MAX_LIST_PAGE_SIZE)"

text \<open>
  The names and values of a \<open>URLSearchParams\<close> are USVStrings: the conversion of a
  JavaScript string replaces every surrogate code unit that is not part of a pair (a high
  surrogate followed by a low one) by U+FFFD.
\<close>

definition is_high_surrogate :: "16 word \<Rightarrow> bool" where
  "is_high_surrogate c \<longleftrightarrow> 0xD800 \<le> c \<and> c \<le> 0xDBFF"

definition is_low_surrogate :: "16 word \<Rightarrow> bool" where
  "is_low_surrogate c \<longleftrightarrow> 0xDC00 \<le> c \<and> c \<le> 0xDFFF"

fun to_USVString :: "jsstring \<Rightarrow> jsstring" where
  "to_USVString [] = []"
| "to_USVString [c] = (if is_high_surrogate c \<or> is_low_surrogate c then [0xFFFD] else [c])"
| "to_USVString (c # d # cs) =
     (if is_high_surrogate c \<and> is_low_surrogate d then c # d # to_USVString cs
      else if is_high_surrogate c \<or> is_low_surrogate c then 0xFFFD # to_USVString (d # cs)
      else c # to_USVString (d # cs))"

text \<open>
  \<open>URLSearchParams.set(name, value)\<close>: both arguments are converted, the first pair of
  the name is replaced and the other pairs of the name are removed, a new name is appended.
\<close>

fun set_pair :: "jsstring \<Rightarrow> jsstring \<Rightarrow> (jsstring \<times> jsstring) list
    \<Rightarrow> (jsstring \<times> jsstring) list" where
  "set_pair k v [] = [(k, v)]"
| "set_pair k v ((k', v') # ps) =
     (if k' = k then (k, v) # filter (\<lambda>p. fst p \<noteq> k) ps else (k', v') # set_pair k v ps)"

definition params_set :: "jsstring \<Rightarrow> jsstring \<Rightarrow> (jsstring \<times> jsstring) list
    \<Rightarrow> (jsstring \<times> jsstring) list" where
  "params_set name v ps = set_pair (to_USVString name) (to_USVString v) ps"

text \<open>
  Lines 304 to 316 of \<open>listFiles\<close>: the parts of the query, or what \<open>buildTypeClause\<close>
  throws. A type clause that is \<open>undefined\<close> or empty is not pushed.
\<close>

definition listFiles_queryParts :: "jsstring list \<Rightarrow> list_options \<Rightarrow> error + jsstring list" where
  "listFiles_queryParts parents options =
    (let queryParts = [js ''trashed = false''];
         parentsClause = buildParentsQuery parents;
         queryParts = (if parentsClause \<noteq> [] then queryParts @ [parentsClause] else queryParts);
         trimmedSearch = (case search options of Some s \<Rightarrow> trim s | None \<Rightarrow> []);
         queryParts = (if trimmedSearch \<noteq> []
                       then queryParts @ [js ''name contains '' @ sq (escapeQueryValue trimmedSearch)]
                       else queryParts)
     in case buildTypeClause (type options) of
          Inl e \<Rightarrow> Inl e
        | Inr typeClause \<Rightarrow>
            Inr (case typeClause of
                   Some clause \<Rightarrow> if clause \<noteq> [] then queryParts @ [clause] else queryParts
                 | None \<Rightarrow> queryParts))"

text \<open>
  The parameters \<open>listFiles\<close> sends to the Drive list endpoint, in the order of the
  \<open>URLSearchParams\<close> (before their percent-encoding into the URL), or what it throws
  before it sends anything. Lines 286 to 302 set the parameters of the page, which
  cannot throw; the query is joined and set last (line 317).
\<close>

definition listFiles_params :: "jsstring list \<Rightarrow> list_options
    \<Rightarrow> error + (jsstring \<times> jsstring) list" where
  "listFiles_params parents options =
    (let params = [];
         params = params_set (js ''pageSize'') (String_of_int (safeSize (pageSize options))) params;
         params = params_set (js ''orderBy'') (js ''modifiedTime desc'') params;
         params = params_set (js ''supportsAllDrives'') (js ''true'') params;
         params = params_set (js ''includeItemsFromAllDrives'') (js ''true'') params;
         params = params_set (js ''spaces'') (js ''drive'') params;
         params = params_set (js ''fields'')
           (join (js '','')
             [js ''nextPageToken'',
              js ''files(id,name,mimeType,size,description,modifiedTime,createdTime,thumbnailLink,iconLink,webViewLink,webContentLink,md5Checksum,hasThumbnail)''])
           params;
         params = (case pageToken options of
                     None \<Rightarrow> params
                   | Some t \<Rightarrow> if t = [] then params else params_set (js ''pageToken'') t params)
     in case listFiles_queryParts parents options of
          Inl e \<Rightarrow> Inl e
        | Inr queryParts \<Rightarrow> Inr (params_set (js ''q'') (join (js '' and '') queryParts) params))"

text \<open>\<open>URLSearchParams.get(name)\<close>: the value of the first pair of the name.\<close>

definition params_get :: "jsstring \<Rightarrow> (jsstring \<times> jsstring) list \<Rightarrow> jsstring option" where
  "params_get name ps = map_of ps (to_USVString name)"


section \<open>Token minter: base64url, JSON text and the JWT assertion\<close>

definition DRIVE_SCOPE :: jsstring where
  "DRIVE_SCOPE = js ''https://www.googleapis.com/auth/drive''"

definition TOKEN_ENDPOINT :: jsstring where
  "TOKEN_ENDPOINT = js ''https://oauth2.googleapis.com/token''"

text \<open>The base64 alphabet: the character of a 6-bit value.\<close>

definition b64_char :: "nat \<Rightarrow> 16 word" where
  "b64_char i =
     (if i < 26 then of_nat (65 + i)
      else if i < 52 then of_nat (97 + (i - 26))
      else if i < 62 then of_nat (48 + (i - 52))
      else if i = 62 then 0x2B
      else 0x2F)"

text \<open>Base64 of a list of byte values, three bytes to four characters, padded with \<open>=\<close>.\<close>

fun b64_encode :: "nat list \<Rightarrow> jsstring" where
  "b64_encode [] = []"
| "b64_encode [a] = [b64_char (a div 4), b64_char ((a mod 4) * 16), 0x3D, 0x3D]"
| "b64_encode [a, b] =
     [b64_char (a div 4), b64_char ((a mod 4) * 16 + b div 16), b64_char ((b mod 16) * 4), 0x3D]"
| "b64_encode (a # b # c # rest) =
     [b64_char (a div 4), b64_char ((a mod 4) * 16 + b div 16),
      b64_char ((b mod 16) * 4 + c div 64), b64_char (c mod 64)] @ b64_encode rest"

text \<open>
  \<open>btoa\<close>: every code unit of the input is taken as one byte; a code unit above 0xFF
  raises \<open>InvalidCharacterError\<close>.
\<close>

definition btoa :: "jsstring \<Rightarrow> error + jsstring" where
  "btoa s = (if list_all (\<lambda>c. c \<le> 0xFF) s then Inr (b64_encode (map unat s))
             else Inl InvalidCharacterError)"

text \<open>\<open>s.replace(/x/g, y)\<close> for single characters, and \<open>s.replace(/=+$/, '')\<close>.\<close>

definition replace_char :: "16 word \<Rightarrow> 16 word \<Rightarrow> jsstring \<Rightarrow> jsstring" where
  "replace_char x y s = map (\<lambda>c. if c = x then y else c) s"

definition strip_padding :: "jsstring \<Rightarrow> jsstring" where
  "strip_padding s = rev (dropWhile (\<lambda>c. c = 0x3D) (rev s))"

text \<open>\<open>b.replace(/\+/g, '-').replace(/\//g, '_')\<close>, as both encoders of the source do.\<close>

definition urlsafe :: "jsstring \<Rightarrow> jsstring" where
  "urlsafe b = replace_char 0x2F 0x5F (replace_char 0x2B 0x2D b)"

definition base64UrlEncode :: "jsstring \<Rightarrow> error + jsstring" where
  "base64UrlEncode input =
     (case btoa input of
        Inl e \<Rightarrow> Inl e
      | Inr b \<Rightarrow> Inr (strip_padding (urlsafe b)))"

text \<open>
  \<open>arrayBufferToBase64\<close>: each byte becomes one code unit (\<open>String.fromCharCode\<close>), and
  the binary string goes through \<open>btoa\<close>.
\<close>

definition arrayBufferToBase64 :: "8 word list \<Rightarrow> error + jsstring" where
  "arrayBufferToBase64 buffer = btoa (map ucast buffer)"

text \<open>
  The decoder of the base64url alphabet without padding (RFC 4648, section 5), which the
  source does not contain: it is the reading of an assertion by its recipient, used to
  state the round trip. The value of a character, and four values to three bytes.
\<close>

definition b64url_value :: "16 word \<Rightarrow> nat option" where
  "b64url_value c =
     (if 0x41 \<le> c \<and> c \<le> 0x5A then Some (unat c - 65)
      else if 0x61 \<le> c \<and> c \<le> 0x7A then Some (unat c - 71)
      else if 0x30 \<le> c \<and> c \<le> 0x39 then Some (unat c + 4)
      else if c = 0x2D then Some 62
      else if c = 0x5F then Some 63
      else None)"

fun b64_decode_values :: "nat list \<Rightarrow> nat list option" where
  "b64_decode_values [] = Some []"
| "b64_decode_values [a] = None"
| "b64_decode_values [a, b] = Some [a * 4 + b div 16]"
| "b64_decode_values [a, b, c] = Some [a * 4 + b div 16, (b mod 16) * 16 + c div 4]"
| "b64_decode_values (a # b # c # d # rest) =
     (case b64_decode_values rest of
        None \<Rightarrow> None
      | Some bytes \<Rightarrow>
          Some ([a * 4 + b div 16, (b mod 16) * 16 + c div 4, (c mod 4) * 64 + d] @ bytes))"

definition base64UrlDecode :: "jsstring \<Rightarrow> jsstring option" where
  "base64UrlDecode s =
     (if list_all (\<lambda>c. b64url_value c \<noteq> None) s
      then map_option (map of_nat) (b64_decode_values (map (\<lambda>c. the (b64url_value c)) s))
      else None)"

text \<open>
  Two devices of the proofs: the base64url character of a 6-bit value, and the 6-bit
  values of the bytes without the padding.
\<close>

definition url_char :: "nat \<Rightarrow> 16 word" where
  "url_char i =
     (let c = b64_char i; c = (if c = 0x2B then 0x2D else c) in if c = 0x2F then 0x5F else c)"

fun b64_values :: "nat list \<Rightarrow> nat list" where
  "b64_values [] = []"
| "b64_values [a] = [a div 4, (a mod 4) * 16]"
| "b64_values [a, b] = [a div 4, (a mod 4) * 16 + b div 16, (b mod 16) * 4]"
| "b64_values (a # b # c # rest) =
     [a div 4, (a mod 4) * 16 + b div 16, (b mod 16) * 4 + c div 64, c mod 64] @ b64_values rest"

text \<open>
  \<open>JSON.stringify\<close> on the flat objects the source builds. A string is quoted as
  ECMAScript's QuoteJSONString does: the two-character escapes, \<open>\uXXXX\<close> (lower-case
  hexadecimal) for the other control characters and for a surrogate that is not part of a
  pair, every other code unit unchanged. A property that is \<open>undefined\<close> is left out.
\<close>

definition hex_digit :: "nat \<Rightarrow> 16 word" where
  "hex_digit n = (if n < 10 then of_nat (48 + n) else of_nat (87 + n))"

definition unicode_escape :: "16 word \<Rightarrow> jsstring" where
  "unicode_escape c =
     (let n = unat c
      in [backslash, 0x75, hex_digit (n div 4096), hex_digit (n div 256 mod 16),
          hex_digit (n div 16 mod 16), hex_digit (n mod 16)])"

fun quote_units :: "jsstring \<Rightarrow> jsstring" where
  "quote_units [] = []"
| "quote_units (c # cs) =
    (if c = 0x22 then [backslash, 0x22] @ quote_units cs
     else if c = backslash then [backslash, backslash] @ quote_units cs
     else if c = 0x08 then [backslash, 0x62] @ quote_units cs
     else if c = 0x0C then [backslash, 0x66] @ quote_units cs
     else if c = 0x0A then [backslash, 0x6E] @ quote_units cs
     else if c = 0x0D then [backslash, 0x72] @ quote_units cs
     else if c = 0x09 then [backslash, 0x74] @ quote_units cs
     else if c < 0x20 then unicode_escape c @ quote_units cs
     else if 0xD800 \<le> c \<and> c \<le> 0xDBFF then
       (case cs of
          d # ds \<Rightarrow> if 0xDC00 \<le> d \<and> d \<le> 0xDFFF then c # d # quote_units ds
                    else unicode_escape c @ quote_units cs
        | [] \<Rightarrow> unicode_escape c)
     else if 0xDC00 \<le> c \<and> c \<le> 0xDFFF then unicode_escape c @ quote_units cs
     else c # quote_units cs)"

definition QuoteJSONString :: "jsstring \<Rightarrow> jsstring" where
  "QuoteJSONString s = 0x22 # quote_units s @ [0x22]"

datatype json_value = JString jsstring | JNumber int | JUndefined

definition stringify_value :: "json_value \<Rightarrow> jsstring" where
  "stringify_value v =
     (case v of JString s \<Rightarrow> QuoteJSONString s | JNumber n \<Rightarrow> String_of_int n | JUndefined \<Rightarrow> [])"

definition JSON_stringify :: "(jsstring \<times> json_value) list \<Rightarrow> jsstring" where
  "JSON_stringify obj =
     js ''{'' @
     join (js '','')
       (map (\<lambda>kv. QuoteJSONString (fst kv) @ js '':'' @ stringify_value (snd kv))
          (filter (\<lambda>kv. snd kv \<noteq> JUndefined) obj)) @
     js ''}''"

text \<open>
  A service-account record: a JSON object whose \<open>client_email\<close> and \<open>private_key\<close>,
  when present, are strings (\<open>None\<close> is a missing field).
\<close>

record service_account =
  client_email :: "jsstring option"
  private_key :: "jsstring option"

text \<open>
  \<open>sign(input, privateKey)\<close>. The chain \<open>pemToArrayBuffer\<close>, \<open>crypto.subtle.importKey\<close>,
  \<open>crypto.subtle.sign\<close> is the parameter \<open>signer\<close>: from the PEM text and the input
  to the signature bytes, or a rejection. \<open>pemToArrayBuffer\<close> of a missing key calls
  \<open>replace\<close> on \<open>undefined\<close>.
\<close>

definition sign :: "(jsstring \<Rightarrow> jsstring \<Rightarrow> error + 8 word list) \<Rightarrow> jsstring
    \<Rightarrow> jsstring option \<Rightarrow> error + jsstring" where
  "sign signer input privateKey =
     (case privateKey of
        None \<Rightarrow> Inl TypeError
      | Some pem \<Rightarrow>
          (case signer pem input of
             Inl e \<Rightarrow> Inl e
           | Inr signature \<Rightarrow>
               (case arrayBufferToBase64 signature of
                  Inl e \<Rightarrow> Inl e
                | Inr b \<Rightarrow> Inr (strip_padding (urlsafe b)))))"

text \<open>The two objects of \<open>generateServiceAccountAssertion\<close>, for \<open>Date.now()\<close> equal to \<open>now\<close>.\<close>

definition jwt_header :: "(jsstring \<times> json_value) list" where
  "jwt_header = [(js ''alg'', JString (js ''RS256'')), (js ''typ'', JString (js ''JWT''))]"

definition jwt_payload :: "service_account \<Rightarrow> int \<Rightarrow> (jsstring \<times> json_value) list" where
  "jwt_payload serviceAccount now =
     (let iat = now div 1000
      in [(js ''iss'', case client_email serviceAccount of None \<Rightarrow> JUndefined | Some e \<Rightarrow> JString e),
          (js ''scope'', JString DRIVE_SCOPE),
          (js ''aud'', JString TOKEN_ENDPOINT),
          (js ''exp'', JNumber (iat + 3600)),
          (js ''iat'', JNumber iat)])"

text \<open>\<open>generateServiceAccountAssertion\<close>, given the value \<open>Date.now()\<close> returns.\<close>

definition generateServiceAccountAssertion ::
    "(jsstring \<Rightarrow> jsstring \<Rightarrow> error + 8 word list) \<Rightarrow> int \<Rightarrow> service_account
     \<Rightarrow> error + jsstring" where
  "generateServiceAccountAssertion signer now serviceAccount =
     (case base64UrlEncode (JSON_stringify jwt_header) of
        Inl e \<Rightarrow> Inl e
      | Inr encHeader \<Rightarrow>
          (case base64UrlEncode (JSON_stringify (jwt_payload serviceAccount now)) of
             Inl e \<Rightarrow> Inl e
           | Inr encPayload \<Rightarrow>
               (case sign signer (encHeader @ js ''.'' @ encPayload) (private_key serviceAccount) of
                  Inl e \<Rightarrow> Inl e
                | Inr signature \<Rightarrow>
                    Inr (encHeader @ js ''.'' @ encPayload @ js ''.'' @ signature))))"

section \<open>Credentials, the world outside and the state of the process\<close>

text \<open>
  The JSON body of the token endpoint, with the fields the source reads; \<open>None\<close> is a
  missing field. A response is its \<open>ok\<close> flag and the outcome of \<open>res.json()\<close>
  (\<open>None\<close>: the body is not JSON and \<open>res.json()\<close> rejects).
\<close>

record token_json =
  access_token :: jsstring
  expires_in :: "int option"
  error_description :: "jsstring option"

record http_response =
  ok :: bool
  json :: "token_json option"

datatype token_request =
    Jwt_bearer jsstring
  | Refresh_token jsstring jsstring jsstring

text \<open>
  A credential collection (the bundled module's default export, or the JSON of the
  remote URL): with an \<open>accounts\<close> array or without one. For the URL, \<open>None\<close> is a
  body from which \<open>data.accounts\<close> cannot be read (\<open>response.json()\<close> rejects, or
  the document is \<open>null\<close>).
\<close>

datatype accounts_doc = No_accounts | Accounts "service_account list"

record url_response =
  url_ok :: bool
  url_json :: "accounts_doc option"

text \<open>
  The environment bindings the source reads; \<open>GDRIVE_SERVICE_ACCOUNT_n e i\<close> is the
  binding of the key \<open>GDRIVE_SERVICE_ACCOUNT_\<close> followed by the decimal \<open>i\<close>.
\<close>

record environment =
  SERVICE_ACCOUNTS_URL :: "jsstring option"
  GDRIVE_SERVICE_ACCOUNTS :: "jsstring option"
  GDRIVE_SERVICE_ACCOUNT_n :: "nat \<Rightarrow> jsstring option"
  GDRIVE_SERVICE_ACCOUNT :: "jsstring option"
  GOOGLE_CLIENT_ID :: "jsstring option"
  GOOGLE_CLIENT_SECRET :: "jsstring option"
  GOOGLE_REFRESH_TOKEN :: "jsstring option"
  DRIVE_UPLOAD_ROOT :: "jsstring option"

text \<open>
  The world outside the code: the value of the \<open>k\<close>-th call of \<open>Date.now()\<close>, the
  signer, the answer to the \<open>k\<close>-th POST to the token endpoint, the outcome of the
  \<open>k\<close>-th evaluation of \<open>import('../service-accounts.json')\<close> (\<open>None\<close>: the import
  fails), the answer to the \<open>k\<close>-th fetch of the accounts URL, and \<open>JSON.parse\<close> on
  credential texts (\<open>None\<close>: a SyntaxError).
\<close>

record world =
  clock :: "nat \<Rightarrow> int"
  subtle_sign :: "jsstring \<Rightarrow> jsstring \<Rightarrow> error + 8 word list"
  token_endpoint :: "nat \<Rightarrow> token_request \<Rightarrow> error + http_response"
  bundled_module :: "nat \<Rightarrow> accounts_doc option"
  url_fetch :: "nat \<Rightarrow> jsstring \<Rightarrow> error + url_response"
  JSON_parse :: "jsstring \<Rightarrow> service_account option"

record cached_token =
  token :: jsstring
  expiresAt :: int

datatype source = Bundled_JSON | From_URL | From_environment

datatype console_entry =
    Log_loaded nat source
  | Warn_url
  | Warn_joined
  | Warn_numbered nat
  | Warn_legacy
  | Error_rotating jsstring

text \<open>
  The state: the fields of the \<open>DriveClient\<close> instance, the two module-level variables
  (\<open>bundledServiceAccountsPromise\<close> holds the number of the import it awaits), and the
  history of what the code has asked of the world: how often it read the clock, how often
  it evaluated the import, the URLs it fetched, the requests it posted to the token
  endpoint, the records \<open>fetchServiceAccountToken\<close> was called for, and the console.
\<close>

record state =
  clientId :: "jsstring option"
  clientSecret :: "jsstring option"
  refreshToken :: "jsstring option"
  env :: environment
  serviceAccounts :: "service_account list"
  currentServiceAccountIndex :: nat
  accountsLoaded :: bool
  parents :: "jsstring list"
  cachedTokens :: "jsstring \<Rightarrow> cached_token option"
  bundledServiceAccountsCache :: "accounts_doc option"
  bundledServiceAccountsPromise :: "nat option"
  now_reads :: nat
  module_imports :: nat
  url_fetches :: "jsstring list"
  token_posts :: "token_request list"
  mint_attempts :: "service_account list"
  console :: "console_entry list"

text \<open>A fresh process in which \<open>new DriveClient(env)\<close> has run.\<close>

definition DriveClient :: "environment \<Rightarrow> state" where
  "DriveClient e =
     \<lparr>clientId = GOOGLE_CLIENT_ID e,
      clientSecret = GOOGLE_CLIENT_SECRET e,
      refreshToken = GOOGLE_REFRESH_TOKEN e,
      env = e,
      serviceAccounts = [],
      currentServiceAccountIndex = 0,
      accountsLoaded = False,
      parents = parse_parents (DRIVE_UPLOAD_ROOT e),
      cachedTokens = Map.empty,
      bundledServiceAccountsCache = None,
      bundledServiceAccountsPromise = None,
      now_reads = 0,
      module_imports = 0,
      url_fetches = [],
      token_posts = [],
      mint_attempts = [],
      console = []\<rparr>"

text \<open>The string of a value that was tested to be truthy.\<close>

definition str :: "jsstring option \<Rightarrow> jsstring" where
  "str v = (case v of None \<Rightarrow> [] | Some s \<Rightarrow> s)"

definition Date_now :: "world \<Rightarrow> state \<Rightarrow> int \<times> state" where
  "Date_now w s = (clock w (now_reads s), s\<lparr>now_reads := Suc (now_reads s)\<rparr>)"

section \<open>Credential source resolver\<close>

text \<open>
  The loop over the pieces of \<open>GDRIVE_SERVICE_ACCOUNTS\<close>, which stands inside one
  \<open>try\<close>: a piece that does not parse ends the loop, and the records pushed before it
  stay. The result says whether the \<open>catch\<close> ran.
\<close>

fun parse_joined :: "(jsstring \<Rightarrow> service_account option) \<Rightarrow> jsstring list
    \<Rightarrow> service_account list \<Rightarrow> service_account list \<times> bool" where
  "parse_joined parse [] accounts = (accounts, False)"
| "parse_joined parse (accountStr # rest) accounts =
     (if trim accountStr \<noteq> []
      then (case parse (trim accountStr) of
              None \<Rightarrow> (accounts, True)
            | Some a \<Rightarrow> parse_joined parse rest (accounts @ [a]))
      else parse_joined parse rest accounts)"

text \<open>
  The loop \<open>for (let i = 0; i < 100; i++)\<close> over the numbered keys, from \<open>i\<close> on, with
  the accounts and the warnings so far.
\<close>

function parse_numbered :: "(jsstring \<Rightarrow> service_account option) \<Rightarrow> environment \<Rightarrow> nat
    \<Rightarrow> service_account list \<Rightarrow> console_entry list
    \<Rightarrow> service_account list \<times> console_entry list" where
  "parse_numbered parse e i accounts warns =
     (if i < 100
      then (if truthy (GDRIVE_SERVICE_ACCOUNT_n e i)
            then (case parse (str (GDRIVE_SERVICE_ACCOUNT_n e i)) of
                    Some a \<Rightarrow> parse_numbered parse e (Suc i) (accounts @ [a]) warns
                  | None \<Rightarrow> parse_numbered parse e (Suc i) accounts (warns @ [Warn_numbered i]))
            else (if i > 0 \<and> length accounts = 0 then (accounts, warns)
                  else parse_numbered parse e (Suc i) accounts warns))
      else (accounts, warns))"
  by pat_completeness auto
termination
  by (relation "measure (\<lambda>(parse, e, i, accounts, warns). 100 - i)") auto

declare parse_numbered.simps [simp del]

definition parseServiceAccounts :: "world \<Rightarrow> environment
    \<Rightarrow> service_account list \<times> console_entry list" where
  "parseServiceAccounts w e =
     (case (if truthy (GDRIVE_SERVICE_ACCOUNTS e)
            then parse_joined (JSON_parse w)
                   (split_str (js ''|||'') [] (str (GDRIVE_SERVICE_ACCOUNTS e))) []
            else ([], False)) of
        (accounts, caught) \<Rightarrow>
          parse_numbered (JSON_parse w) e 0 accounts (if caught then [Warn_joined] else []))"

text \<open>Method 3 and the legacy variable: lines 117 to 132 of \<open>loadServiceAccounts\<close>.\<close>

definition load_from_environment :: "world \<Rightarrow> state \<Rightarrow> state" where
  "load_from_environment w s0 =
     (case parseServiceAccounts w (env s0) of
        (accounts, warns) \<Rightarrow>
          let s = s0\<lparr>serviceAccounts := accounts, console := console s0 @ warns\<rparr>;
              s = (if length (serviceAccounts s) = 0 \<and> truthy (GDRIVE_SERVICE_ACCOUNT (env s))
                   then (case JSON_parse w (str (GDRIVE_SERVICE_ACCOUNT (env s))) of
                           Some a \<Rightarrow> s\<lparr>serviceAccounts := [a]\<rparr>
                         | None \<Rightarrow> s\<lparr>console := console s @ [Warn_legacy]\<rparr>)
                   else s);
              s = s\<lparr>accountsLoaded := True\<rparr>
          in if length (serviceAccounts s) > 0
             then s\<lparr>console := console s @
                    [Log_loaded (length (serviceAccounts s)) From_environment]\<rparr>
             else s)"

text \<open>Method 2, the remote URL: lines 99 to 115, followed by method 3 when it does not return.\<close>

definition load_from_url :: "world \<Rightarrow> state \<Rightarrow> state" where
  "load_from_url w s0 =
     (if truthy (SERVICE_ACCOUNTS_URL (env s0))
      then (let url = str (SERVICE_ACCOUNTS_URL (env s0));
                k = length (url_fetches s0);
                s = s0\<lparr>url_fetches := url_fetches s0 @ [url]\<rparr>
            in case url_fetch w k url of
                 Inl e \<Rightarrow> load_from_environment w (s\<lparr>console := console s @ [Warn_url]\<rparr>)
               | Inr response \<Rightarrow>
                   if url_ok response
                   then (case url_json response of
                           None \<Rightarrow>
                             load_from_environment w (s\<lparr>console := console s @ [Warn_url]\<rparr>)
                         | Some No_accounts \<Rightarrow> load_from_environment w s
                         | Some (Accounts accounts) \<Rightarrow>
                             s\<lparr>serviceAccounts := accounts, accountsLoaded := True,
                               console := console s @ [Log_loaded (length accounts) From_URL]\<rparr>)
                   else load_from_environment w s)
      else load_from_environment w s0)"

text \<open>
  \<open>loadServiceAccounts\<close>, run without interruption. Method 1 creates the import promise
  when there is none, awaits it, and uses the bundled collection when it has an
  \<open>accounts\<close> array.
\<close>

definition loadServiceAccounts :: "world \<Rightarrow> state \<Rightarrow> state" where
  "loadServiceAccounts w s0 =
     (if accountsLoaded s0 then s0
      else
        let k = (case bundledServiceAccountsPromise s0 of
                   None \<Rightarrow> module_imports s0
                 | Some k \<Rightarrow> k);
            s = (case bundledServiceAccountsPromise s0 of
                   None \<Rightarrow> s0\<lparr>bundledServiceAccountsPromise := Some (module_imports s0),
                               module_imports := Suc (module_imports s0)\<rparr>
                 | Some k \<Rightarrow> s0);
            bundledServiceAccounts = bundled_module w k;
            s = s\<lparr>bundledServiceAccountsCache := bundledServiceAccounts\<rparr>
        in case bundledServiceAccounts of
             Some (Accounts accounts) \<Rightarrow>
               s\<lparr>serviceAccounts := accounts, accountsLoaded := True,
                 console := console s @ [Log_loaded (length accounts) Bundled_JSON]\<rparr>
           | Some No_accounts \<Rightarrow> load_from_url w s
           | None \<Rightarrow> load_from_url w s)"

section \<open>Token cache and rotation controller\<close>

definition getCurrentServiceAccount :: "state \<Rightarrow> service_account option" where
  "getCurrentServiceAccount s =
     (if length (serviceAccounts s) = 0 then None
      else Some (serviceAccounts s ! (currentServiceAccountIndex s mod length (serviceAccounts s))))"

definition rotateServiceAccount :: "state \<Rightarrow> state" where
  "rotateServiceAccount s =
     (if length (serviceAccounts s) > 1
      then s\<lparr>currentServiceAccountIndex :=
               (currentServiceAccountIndex s + 1) mod length (serviceAccounts s)\<rparr>
      else s)"

text \<open>\<open>serviceAccount.client_email || 'default'\<close>.\<close>

definition accountKey :: "service_account \<Rightarrow> jsstring" where
  "accountKey serviceAccount =
     (if truthy (client_email serviceAccount) then str (client_email serviceAccount)
      else js ''default'')"

text \<open>\<open>tokenData.expires_in || 3600\<close>: a missing lifetime is 3600, and so is the falsy 0.\<close>

definition lifetime :: "token_json \<Rightarrow> int" where
  "lifetime tokenData =
     (case expires_in tokenData of None \<Rightarrow> 3600 | Some l \<Rightarrow> if l = 0 then 3600 else l)"

text \<open>
  \<open>cached && cached.expiresAt > Date.now() + 60000\<close> on the entry of a key: the token
  when the test holds. The clock is read only when there is an entry.
\<close>

definition cache_lookup :: "world \<Rightarrow> state \<Rightarrow> jsstring \<Rightarrow> jsstring option \<times> state" where
  "cache_lookup w s key =
     (case cachedTokens s key of
        None \<Rightarrow> (None, s)
      | Some cached \<Rightarrow>
          (case Date_now w s of
             (now, s') \<Rightarrow> (if expiresAt cached > now + 60000 then Some (token cached) else None, s')))"

text \<open>
  \<open>this.cachedTokens.set(key, {token: tokenData.access_token, expiresAt: Date.now() +
  (tokenData.expires_in || 3600) * 1000})\<close>.
\<close>

definition cache_store :: "world \<Rightarrow> state \<Rightarrow> jsstring \<Rightarrow> token_json \<Rightarrow> state" where
  "cache_store w s key tokenData =
     (case Date_now w s of
        (now, s') \<Rightarrow>
          s'\<lparr>cachedTokens := (cachedTokens s')(key \<mapsto>
               \<lparr>token = access_token tokenData,
                expiresAt = now + lifetime tokenData * 1000\<rparr>)\<rparr>)"

text \<open>
  The exchange at the token endpoint, shared by both flows: the POST, \<open>res.json()\<close>,
  and the \<open>Error\<close> with the endpoint's description (or the flow's default message) when
  the response is not ok.
\<close>

definition exchange :: "world \<Rightarrow> state \<Rightarrow> token_request \<Rightarrow> jsstring
    \<Rightarrow> (error + token_json) \<times> state" where
  "exchange w s0 request message =
     (let k = length (token_posts s0);
          s = s0\<lparr>token_posts := token_posts s0 @ [request]\<rparr>
      in case token_endpoint w k request of
           Inl e \<Rightarrow> (Inl e, s)
         | Inr res \<Rightarrow>
             (case json res of
                None \<Rightarrow> (Inl (Rejected (js ''Unexpected token'')), s)
              | Some body \<Rightarrow>
                  if \<not> ok res
                  then (Inl (Error (if truthy (error_description body)
                                    then str (error_description body) else message)), s)
                  else (Inr body, s)))"

definition fetchServiceAccountToken :: "world \<Rightarrow> state \<Rightarrow> service_account
    \<Rightarrow> (error + token_json) \<times> state" where
  "fetchServiceAccountToken w s0 serviceAccount =
     (case Date_now w (s0\<lparr>mint_attempts := mint_attempts s0 @ [serviceAccount]\<rparr>) of
        (now, s) \<Rightarrow>
          (case generateServiceAccountAssertion (subtle_sign w) now serviceAccount of
             Inl e \<Rightarrow> (Inl e, s)
           | Inr assertion \<Rightarrow>
               exchange w s (Jwt_bearer assertion) (js ''Failed to exchange service account JWT'')))"

definition refreshUserToken :: "world \<Rightarrow> state \<Rightarrow> (error + token_json) \<times> state" where
  "refreshUserToken w s =
     (if \<not> truthy (clientId s) \<or> \<not> truthy (clientSecret s) \<or> \<not> truthy (refreshToken s)
      then (Inl (Error (js ''Missing OAuth client credentials for refresh flow'')), s)
      else exchange w s
             (Refresh_token (str (clientId s)) (str (clientSecret s)) (str (refreshToken s)))
             (js ''Failed to refresh token''))"

text \<open>The fallback of \<open>getAccessToken\<close> to the OAuth refresh token: lines 429 to 450.\<close>

definition oauth_access_token :: "world \<Rightarrow> state \<Rightarrow> (error + jsstring) \<times> state" where
  "oauth_access_token w s =
     (if \<not> truthy (clientId s) \<or> \<not> truthy (clientSecret s) \<or> \<not> truthy (refreshToken s)
      then (Inl (Error (js ''No authentication method available. Configure service accounts or OAuth credentials.'')), s)
      else (case cache_lookup w s (js ''oauth'') of
              (Some tok, s1) \<Rightarrow> (Inr tok, s1)
            | (None, s1) \<Rightarrow>
                (case refreshUserToken w s1 of
                   (Inl e, s2) \<Rightarrow> (Inl e, s2)
                 | (Inr tokenData, s2) \<Rightarrow>
                     (Inr (access_token tokenData), cache_store w s2 (js ''oauth'') tokenData))))"

text \<open>
  \<open>getAccessToken\<close>. The retry after a failed mint is the recursive call of the source;
  a call that never returns has the value \<open>None\<close>.
\<close>

partial_function (option) getAccessToken :: "world \<Rightarrow> state
    \<Rightarrow> ((error + jsstring) \<times> state) option" where
  "getAccessToken w s0 =
     (let s = loadServiceAccounts w s0
      in case getCurrentServiceAccount s of
           Some serviceAccount \<Rightarrow>
             (case cache_lookup w s (accountKey serviceAccount) of
                (Some tok, s1) \<Rightarrow> Some (Inr tok, s1)
              | (None, s1) \<Rightarrow>
                  (case fetchServiceAccountToken w s1 serviceAccount of
                     (Inr tokenData, s2) \<Rightarrow>
                       Some (Inr (access_token tokenData),
                             cache_store w s2 (accountKey serviceAccount) tokenData)
                   | (Inl e, s2) \<Rightarrow>
                       (let s3 = rotateServiceAccount
                                  (s2\<lparr>console := console s2 @
                                        [Error_rotating (accountKey serviceAccount)]\<rparr>)
                        in if length (serviceAccounts s3) > 1
                           then getAccessToken w s3
                           else Some (Inl e, s3))))
         | None \<Rightarrow> Some (oauth_access_token w s))"

text \<open>An example record and signer, at which the assertion is evaluated.\<close>

definition ex_signer :: "jsstring \<Rightarrow> jsstring \<Rightarrow> error + 8 word list" where
  "ex_signer pem input = Inr [0xDE, 0xAD, 0xBE, 0xEF]"

definition ex_account :: service_account where
  "ex_account = \<lparr>client_email = Some (js ''cdn@drive.iam''), private_key = Some (js ''PEM'')\<rparr>"


section \<open>The situations the claims speak of\<close>

text \<open>
  An identity whose mint fails permanently, or succeeds permanently: whatever the state
  (the time, the number of the request) in which \<open>fetchServiceAccountToken\<close> is called.
  No valid cached token: every entry under the key of a record of the set fails the
  validity test at every reading of the clock.
\<close>

definition mint_fails :: "world \<Rightarrow> service_account \<Rightarrow> bool" where
  "mint_fails w a \<longleftrightarrow> (\<forall>s. isl (fst (fetchServiceAccountToken w s a)))"

definition mint_succeeds :: "world \<Rightarrow> service_account \<Rightarrow> bool" where
  "mint_succeeds w a \<longleftrightarrow> (\<forall>s. \<not> isl (fst (fetchServiceAccountToken w s a)))"

definition no_valid_token :: "world \<Rightarrow> state \<Rightarrow> bool" where
  "no_valid_token w s \<longleftrightarrow>
     (\<forall>a \<in> set (serviceAccounts s). \<forall>c. cachedTokens s (accountKey a) = Some c
        \<longrightarrow> (\<forall>k. expiresAt c \<le> clock w k + 60000))"

definition all_fail_state :: "world \<Rightarrow> state \<Rightarrow> bool" where
  "all_fail_state w s \<longleftrightarrow>
     accountsLoaded s \<and> 2 \<le> length (serviceAccounts s)
     \<and> (\<forall>a \<in> set (serviceAccounts s). mint_fails w a) \<and> no_valid_token w s"

text \<open>
  Examples: an environment without bindings, a world in which every exchange and every
  fetch is rejected, a second record, and a client whose Credential Set has been resolved
  to the given records.
\<close>

definition env_empty :: environment where
  "env_empty =
     \<lparr>SERVICE_ACCOUNTS_URL = None, GDRIVE_SERVICE_ACCOUNTS = None,
      GDRIVE_SERVICE_ACCOUNT_n = (\<lambda>i. None), GDRIVE_SERVICE_ACCOUNT = None,
      GOOGLE_CLIENT_ID = None, GOOGLE_CLIENT_SECRET = None, GOOGLE_REFRESH_TOKEN = None,
      DRIVE_UPLOAD_ROOT = None\<rparr>"

definition world_offline :: world where
  "world_offline =
     \<lparr>clock = (\<lambda>k. 1700000000123),
      subtle_sign = ex_signer,
      token_endpoint = (\<lambda>k request. Inl (Rejected (js ''offline''))),
      bundled_module = (\<lambda>k. None),
      url_fetch = (\<lambda>k url. Inl (Rejected (js ''offline''))),
      JSON_parse = (\<lambda>text. None)\<rparr>"

definition ex_account_b :: service_account where
  "ex_account_b = \<lparr>client_email = Some (js ''b@drive.iam''), private_key = Some (js ''PEM'')\<rparr>"

definition loaded_with :: "service_account list \<Rightarrow> state" where
  "loaded_with accounts = (DriveClient env_empty)\<lparr>serviceAccounts := accounts, accountsLoaded := True\<rparr>"

text \<open>
  A world in which the key \<open>REVOKED\<close> is rejected by the signer and every exchange is
  answered with a token, and a record with that key.
\<close>

definition world_one_revoked :: world where
  "world_one_revoked =
     \<lparr>clock = (\<lambda>k. 1700000000123),
      subtle_sign = (\<lambda>pem input. if pem = js ''REVOKED'' then Inl (Rejected (js ''key rejected''))
                                 else Inr [0xDE, 0xAD, 0xBE, 0xEF]),
      token_endpoint = (\<lambda>k request.
         Inr \<lparr>ok = True,
              json = Some \<lparr>access_token = js ''ya29.token'', expires_in = Some 3599,
                           error_description = None\<rparr>\<rparr>),
      bundled_module = (\<lambda>k. None),
      url_fetch = (\<lambda>k url. Inl (Rejected (js ''offline''))),
      JSON_parse = (\<lambda>text. None)\<rparr>"

definition ex_account_revoked :: service_account where
  "ex_account_revoked =
     \<lparr>client_email = Some (js ''old@drive.iam''), private_key = Some (js ''REVOKED'')\<rparr>"

text \<open>
  What the cache holds under a key when \<open>getAccessToken\<close> has returned. Then a world
  whose token endpoint answers with the lifetime 0, a world whose clock stands at a given
  time, and a client that holds a token minted at 1700000000123 with the lifetime 3599.
\<close>

definition cached_after :: "world \<Rightarrow> state \<Rightarrow> jsstring \<Rightarrow> cached_token option" where
  "cached_after w s key =
     (case getAccessToken w s of None \<Rightarrow> None | Some (r, s') \<Rightarrow> cachedTokens s' key)"

definition world_zero_lifetime :: world where
  "world_zero_lifetime =
     world_one_revoked\<lparr>token_endpoint := (\<lambda>k request.
         Inr \<lparr>ok = True,
              json = Some \<lparr>access_token = js ''ya29.token'', expires_in = Some 0,
                           error_description = None\<rparr>\<rparr>)\<rparr>"

definition world_at :: "int \<Rightarrow> world" where
  "world_at t = world_one_revoked\<lparr>clock := (\<lambda>k. t)\<rparr>"

definition cached_state :: state where
  "cached_state =
     (loaded_with [ex_account])\<lparr>cachedTokens :=
        [accountKey ex_account \<mapsto>
           \<lparr>token = js ''ya29.token'', expiresAt = 1700000000123 + 3599 * 1000\<rparr>]\<rparr>"

text \<open>The assertion of \<open>ex_account\<close> at the time 1700000000123.\<close>

definition ex_jwt :: jsstring where
  "ex_jwt = js ''eyJhbGciOiJSUzI1NiIsInR5cCI6IkpXVCJ9'' @ js ''.'' @ js ''eyJpc3MiOiJjZG5AZHJpdmUuaWFtIiwic2NvcGUiOiJodHRwczovL3d3dy5nb29nbGVhcGlzLmNvbS9hdXRoL2RyaXZlIiwiYXVkIjoiaHR0cHM6Ly9vYXV0aDIuZ29vZ2xlYXBpcy5jb20vdG9rZW4iLCJleHAiOjE3MDAwMDM2MDAsImlhdCI6MTcwMDAwMDAwMH0'' @ js ''.'' @ js ''3q2-7w''"

text \<open>Two distinct records without \<open>client_email\<close>.\<close>

definition ex_anon_a :: service_account where
  "ex_anon_a = \<lparr>client_email = None, private_key = Some (js ''PEM'')\<rparr>"

definition ex_anon_b :: service_account where
  "ex_anon_b = \<lparr>client_email = None, private_key = Some (js ''PEM2'')\<rparr>"

text \<open>
  The number of the import whose promise a call of \<open>loadServiceAccounts\<close> awaits: the
  one the module variable holds, or the one the call starts. Then an environment that
  configures the accounts URL, and worlds with an empty bundled collection, with a bundled
  collection of two records, and with no bundled module, all three with a URL that serves
  a collection.
\<close>

definition awaited_import :: "state \<Rightarrow> nat" where
  "awaited_import s =
     (case bundledServiceAccountsPromise s of None \<Rightarrow> module_imports s | Some k \<Rightarrow> k)"

definition env_with_url :: environment where
  "env_with_url = env_empty\<lparr>SERVICE_ACCOUNTS_URL := Some (js ''https://example.org/accounts.json'')\<rparr>"

definition world_empty_bundle :: world where
  "world_empty_bundle =
     world_one_revoked
       \<lparr>bundled_module := (\<lambda>k. Some (Accounts [])),
        url_fetch := (\<lambda>k url. Inr \<lparr>url_ok = True, url_json = Some (Accounts [ex_account])\<rparr>)\<rparr>"

definition world_bundled :: world where
  "world_bundled =
     world_one_revoked
       \<lparr>bundled_module := (\<lambda>k. Some (Accounts [ex_account, ex_account_b])),
        url_fetch := (\<lambda>k url. Inr \<lparr>url_ok = True, url_json = Some (Accounts [ex_account_revoked])\<rparr>)\<rparr>"

definition world_url_only :: world where
  "world_url_only = world_bundled\<lparr>bundled_module := (\<lambda>k. None)\<rparr>"

text \<open>
  The words of the claim about the environment-variable method: the non-blank trimmed
  pieces of the delimiter-joined value; the record of the numbered key \<open>i\<close>, when the
  key is present and parses; a numbered key that is present and malformed; and the event
  that the scan, started at \<open>i\<close> with no record collected, meets a missing index
  \<open>g > 0\<close> before any key parses.
\<close>

definition joined_pieces :: "environment \<Rightarrow> jsstring list" where
  "joined_pieces e =
     (if truthy (GDRIVE_SERVICE_ACCOUNTS e)
      then filter (\<lambda>p. p \<noteq> []) (map trim (split_str (js ''|||'') [] (str (GDRIVE_SERVICE_ACCOUNTS e))))
      else [])"

definition numbered_record :: "world \<Rightarrow> environment \<Rightarrow> nat \<Rightarrow> service_account option" where
  "numbered_record w e i =
     (if truthy (GDRIVE_SERVICE_ACCOUNT_n e i) then JSON_parse w (str (GDRIVE_SERVICE_ACCOUNT_n e i))
      else None)"

definition numbered_malformed :: "world \<Rightarrow> environment \<Rightarrow> nat \<Rightarrow> bool" where
  "numbered_malformed w e i \<longleftrightarrow>
     truthy (GDRIVE_SERVICE_ACCOUNT_n e i) \<and> JSON_parse w (str (GDRIVE_SERVICE_ACCOUNT_n e i)) = None"

definition stops_from :: "world \<Rightarrow> environment \<Rightarrow> nat \<Rightarrow> bool" where
  "stops_from w e i \<longleftrightarrow>
     (\<exists>g. i \<le> g \<and> 0 < g \<and> g < 100 \<and> \<not> truthy (GDRIVE_SERVICE_ACCOUNT_n e g)
          \<and> (\<forall>j. i \<le> j \<and> j < g \<longrightarrow> numbered_record w e j = None))"

text \<open>
  Two credential texts, a world whose \<open>JSON.parse\<close> reads them, and environments: one
  with the numbered key 2 alone, one with a joined value of two texts and the numbered keys
  0 (malformed), 1 and 3, one whose joined value starts with a malformed piece.
\<close>

definition ex_text_a :: jsstring where
  \<open>ex_text_a = js ''{"client_email":"cdn@drive.iam","private_key":"PEM"}''\<close>

definition ex_text_b :: jsstring where
  \<open>ex_text_b = js ''{"client_email":"b@drive.iam","private_key":"PEM"}''\<close>

definition world_parse :: world where
  "world_parse =
     world_one_revoked\<lparr>JSON_parse := (\<lambda>text. if text = ex_text_a then Some ex_account
                                             else if text = ex_text_b then Some ex_account_b
                                             else None)\<rparr>"

definition env_gap :: environment where
  "env_gap = env_empty\<lparr>GDRIVE_SERVICE_ACCOUNT_n := (\<lambda>i. if i = 2 then Some ex_text_a else None)\<rparr>"

definition env_mixed :: environment where
  "env_mixed =
     env_empty
       \<lparr>GDRIVE_SERVICE_ACCOUNTS := Some (ex_text_a @ js ''|||'' @ js '' '' @ ex_text_b),
        GDRIVE_SERVICE_ACCOUNT_n := (\<lambda>i. if i = 0 then Some (js ''{broken'')
                                          else if i = 1 then Some ex_text_b
                                          else if i = 3 then Some ex_text_a
                                          else None)\<rparr>"

definition env_joined_broken :: environment where
  "env_joined_broken =
     env_empty\<lparr>GDRIVE_SERVICE_ACCOUNTS := Some (js ''{broken'' @ js ''|||'' @ ex_text_a)\<rparr>"

section \<open>Two callers of \<open>loadServiceAccounts\<close> on one client\<close>

text \<open>
  \<open>getAccessToken\<close> starts with \<open>await this.loadServiceAccounts()\<close>, and
  \<open>loadServiceAccounts\<close> is an async function: it runs without interruption from one
  \<open>await\<close> to the next, and another caller may run in between. A caller is where it is
  suspended: not yet started; at \<open>await bundledServiceAccountsPromise\<close> (line 88), with
  the import whose promise it read; at \<open>await fetch(url)\<close> (line 102), with the number
  of the fetch it issued and its URL; at \<open>await response.json()\<close> (line 104), with the
  response; or returned.
\<close>

datatype load_pc =
    At_entry
  | Await_import nat
  | Await_fetch nat jsstring
  | Await_json url_response
  | Returned

text \<open>
  One step of a caller: the code from where it is suspended up to its next \<open>await\<close> or
  its return. The first step is lines 70 to 88, the step after the import lines 89 to 102
  (or to the end, through method 3, when no URL is configured), the step after the fetch
  line 103 and what follows a response that is not ok, the step after the body lines 105 to
  133.
\<close>

definition load_step :: "world \<Rightarrow> load_pc \<Rightarrow> state \<Rightarrow> load_pc \<times> state" where
  "load_step w pc s =
     (case pc of
        At_entry \<Rightarrow>
          if accountsLoaded s then (Returned, s)
          else (case bundledServiceAccountsPromise s of
                  None \<Rightarrow>
                    (Await_import (module_imports s),
                     s\<lparr>bundledServiceAccountsPromise := Some (module_imports s),
                       module_imports := Suc (module_imports s)\<rparr>)
                | Some k \<Rightarrow> (Await_import k, s))
      | Await_import k \<Rightarrow>
          (let bundledServiceAccounts = bundled_module w k;
               s = s\<lparr>bundledServiceAccountsCache := bundledServiceAccounts\<rparr>
           in case bundledServiceAccounts of
                Some (Accounts accounts) \<Rightarrow>
                  (Returned,
                   s\<lparr>serviceAccounts := accounts, accountsLoaded := True,
                     console := console s @ [Log_loaded (length accounts) Bundled_JSON]\<rparr>)
              | _ \<Rightarrow>
                  if truthy (SERVICE_ACCOUNTS_URL (env s))
                  then (Await_fetch (length (url_fetches s)) (str (SERVICE_ACCOUNTS_URL (env s))),
                        s\<lparr>url_fetches := url_fetches s @ [str (SERVICE_ACCOUNTS_URL (env s))]\<rparr>)
                  else (Returned, load_from_environment w s))
      | Await_fetch k url \<Rightarrow>
          (case url_fetch w k url of
             Inl e \<Rightarrow> (Returned, load_from_environment w (s\<lparr>console := console s @ [Warn_url]\<rparr>))
           | Inr response \<Rightarrow>
               if url_ok response then (Await_json response, s)
               else (Returned, load_from_environment w s))
      | Await_json response \<Rightarrow>
          (case url_json response of
             None \<Rightarrow> (Returned, load_from_environment w (s\<lparr>console := console s @ [Warn_url]\<rparr>))
           | Some No_accounts \<Rightarrow> (Returned, load_from_environment w s)
           | Some (Accounts accounts) \<Rightarrow>
               (Returned,
                s\<lparr>serviceAccounts := accounts, accountsLoaded := True,
                  console := console s @ [Log_loaded (length accounts) From_URL]\<rparr>))
      | Returned \<Rightarrow> (Returned, s))"

text \<open>
  A caller that runs alone for \<open>n\<close> steps, and two callers of one client stepped in the
  order of a schedule (\<open>True\<close>: the first caller takes the next step).
\<close>

fun run_alone :: "world \<Rightarrow> nat \<Rightarrow> load_pc \<times> state \<Rightarrow> load_pc \<times> state" where
  "run_alone w 0 c = c"
| "run_alone w (Suc n) (pc, s) = run_alone w n (load_step w pc s)"

fun interleave :: "world \<Rightarrow> bool list \<Rightarrow> load_pc \<times> load_pc \<times> state
    \<Rightarrow> load_pc \<times> load_pc \<times> state" where
  "interleave w [] c = c"
| "interleave w (first # rest) (pc1, pc2, s) =
     (if first
      then (case load_step w pc1 s of (pc1', s') \<Rightarrow> interleave w rest (pc1', pc2, s'))
      else (case load_step w pc2 s of (pc2', s') \<Rightarrow> interleave w rest (pc1, pc2', s')))"

text \<open>
  What the two callers keep true together. A caller that has not passed line 100 may still
  issue one fetch; a caller has at most four steps left; a caller has not left method 1
  when it is at the start, at the import \<open>n\<close>, or returned. \<open>race_inv\<close> relates the
  state reached to the state \<open>s0\<close> the two callers started in.
\<close>

definition unfetched :: "load_pc \<Rightarrow> nat" where
  "unfetched pc = (case pc of At_entry \<Rightarrow> 1 | Await_import k \<Rightarrow> 1 | _ \<Rightarrow> 0)"

definition awaits_left :: "load_pc \<Rightarrow> nat" where
  "awaits_left pc =
     (case pc of At_entry \<Rightarrow> 4 | Await_import k \<Rightarrow> 3 | Await_fetch k url \<Rightarrow> 2
      | Await_json response \<Rightarrow> 1 | Returned \<Rightarrow> 0)"

definition before_fetch :: "nat \<Rightarrow> load_pc \<Rightarrow> bool" where
  "before_fetch n pc \<longleftrightarrow> pc = At_entry \<or> pc = Await_import n \<or> pc = Returned"

definition race_inv :: "world \<Rightarrow> state \<Rightarrow> load_pc \<Rightarrow> load_pc \<Rightarrow> state \<Rightarrow> bool" where
  "race_inv w s0 pc1 pc2 s \<longleftrightarrow>
     awaited_import s = awaited_import s0
   \<and> (module_imports s = module_imports s0
      \<or> module_imports s = Suc (module_imports s0) \<and> bundledServiceAccountsPromise s \<noteq> None)
   \<and> (bundledServiceAccountsPromise s0 \<noteq> None \<longrightarrow>
        bundledServiceAccountsPromise s \<noteq> None \<and> module_imports s = module_imports s0)
   \<and> (\<forall>k. pc1 = Await_import k \<or> pc2 = Await_import k \<longrightarrow> k = awaited_import s0)
   \<and> length (url_fetches s) + unfetched pc1 + unfetched pc2 \<le> length (url_fetches s0) + 2
   \<and> (\<forall>accounts. bundled_module w (awaited_import s0) = Some (Accounts accounts) \<longrightarrow>
        url_fetches s = url_fetches s0
      \<and> before_fetch (awaited_import s0) pc1 \<and> before_fetch (awaited_import s0) pc2
      \<and> (accountsLoaded s \<longrightarrow> serviceAccounts s = accounts)
      \<and> (pc1 = Returned \<or> pc2 = Returned \<longrightarrow> accountsLoaded s))"

text \<open>
  A world without bundled collection whose URL serves one record to the first fetch and
  another record to every later fetch.
\<close>

definition world_url_rotating :: world where
  "world_url_rotating =
     world_url_only
       \<lparr>url_fetch := (\<lambda>k url. Inr \<lparr>url_ok = True,
            url_json = Some (Accounts (if k = 0 then [ex_account] else [ex_account_b]))\<rparr>)\<rparr>"

section \<open>Properties of the list query\<close>

lemma map_of_filter_other:
  "k' \<noteq> k \<Longrightarrow> map_of (filter (\<lambda>p. fst p \<noteq> k) ps) k' = map_of ps k'"
  by (induction ps) auto

lemma map_of_set_pair:
  "map_of (set_pair k v ps) k' = (if k' = k then Some v else map_of ps k')"
  by (induction ps) (auto simp: map_of_filter_other)

lemma map_of_params_set:
  "map_of (params_set k v ps) k' =
     (if k' = to_USVString k then Some (to_USVString v) else map_of ps k')"
  by (simp add: params_set_def map_of_set_pair)

lemma to_USVString_plain:
  "\<forall>c \<in> set s. \<not> is_high_surrogate c \<and> \<not> is_low_surrogate c \<Longrightarrow> to_USVString s = s"
  by (induction s rule: to_USVString.induct) auto

lemma unat_of_char16: "unat (of_char x :: 16 word) = of_char x"
proof -
  have "of_char x < (256 :: nat)" by simp
  then show ?thesis unfolding of_char_def by (simp add: unat_of_nat)
qed

lemma surrogate_unat:
  "is_high_surrogate c \<longleftrightarrow> 0xD800 \<le> unat c \<and> unat c \<le> 0xDBFF"
  "is_low_surrogate c \<longleftrightarrow> 0xDC00 \<le> unat c \<and> unat c \<le> 0xDFFF"
  by (simp_all add: is_high_surrogate_def is_low_surrogate_def word_le_nat_alt)

lemma unat_word16: "n < 65536 \<Longrightarrow> unat (of_nat n :: 16 word) = n"
  by (simp add: unat_of_nat)

lemma plain_js: "\<forall>c \<in> set (js s). \<not> is_high_surrogate c \<and> \<not> is_low_surrogate c"
proof
  fix c :: "16 word"
  assume "c \<in> set (js s)"
  then obtain x where c: "c = of_char x" by (auto simp: js_def)
  have "of_char x < (256 :: nat)" by simp
  then have "unat c < 256" by (simp add: c unat_of_char16)
  then show "\<not> is_high_surrogate c \<and> \<not> is_low_surrogate c"
    by (simp add: surrogate_unat)
qed

lemma to_USVString_js: "to_USVString (js s) = js s"
  by (rule to_USVString_plain) (rule plain_js)

lemma plain_dec_nat: "\<forall>c \<in> set (dec_nat n). \<not> is_high_surrogate c \<and> \<not> is_low_surrogate c"
proof (induction n rule: dec_nat.induct)
  case (1 n)
  have digit: "\<not> is_high_surrogate (of_nat (48 + d) :: 16 word)
      \<and> \<not> is_low_surrogate (of_nat (48 + d) :: 16 word)" if "d < 10" for d :: nat
  proof -
    have "unat (of_nat (48 + d) :: 16 word) = 48 + d"
      using that by (intro unat_word16) simp
    then show ?thesis using that by (simp only: surrogate_unat) simp
  qed
  show ?case
  proof (cases "n < 10")
    case True
    then show ?thesis using digit [of n] by (subst dec_nat.simps) simp
  next
    case False
    have "n mod 10 < 10" by simp
    from digit [OF this] 1 False show ?thesis by (subst dec_nat.simps) auto
  qed
qed

lemma to_USVString_String_of_int: "to_USVString (String_of_int i) = String_of_int i"
  by (rule to_USVString_plain)
    (use plain_dec_nat in \<open>auto simp: String_of_int_def is_high_surrogate_def is_low_surrogate_def\<close>)

lemma safeSize_cases:
  "safeSize ps = (case ps of None \<Rightarrow> 24 | Some n \<Rightarrow>
      if n = 0 then 24 else if 100 < n then 100 else if n < 1 then 1 else n)"
  by (auto simp: safeSize_def MAX_LIST_PAGE_SIZE_def Let_def split: option.splits)

lemma js_eq_iff: "js a = js b \<longleftrightarrow> a = b"
proof -
  have "inj (of_char :: char \<Rightarrow> 16 word)"
  proof (rule injI)
    fix x y :: char
    assume "(of_char x :: 16 word) = of_char y"
    then have "unat (of_char x :: 16 word) = unat (of_char y :: 16 word)" by simp
    then show "x = y" by (simp add: unat_of_char16)
  qed
  then show ?thesis by (simp add: js_def inj_map_eq_map)
qed

lemma js_empty_iff: "js a = [] \<longleftrightarrow> a = []"
  by (simp add: js_def)

text \<open>\<open>buildTypeClause\<close> throws for exactly three names, and \<open>listFiles\<close> with it.\<close>

lemma buildTypeClause_throws:
  "buildTypeClause t = Inl e \<longleftrightarrow>
     e = TypeError \<and> (t = Some (js ''__proto__'') \<or> t = Some (js ''__defineGetter__'')
                      \<or> t = Some (js ''__defineSetter__''))"
  by (auto simp: buildTypeClause_def TYPE_FILTERS_def js_eq_iff js_empty_iff
      split: option.splits)

lemma listFiles_queryParts_throws:
  "listFiles_queryParts roots options = Inl e \<longleftrightarrow> buildTypeClause (type options) = Inl e"
  by (cases "buildTypeClause (type options)") (simp_all add: listFiles_queryParts_def Let_def)

lemma listFiles_params_throws:
  "listFiles_params roots options = Inl e \<longleftrightarrow> buildTypeClause (type options) = Inl e"
proof -
  have "listFiles_params roots options = Inl e \<longleftrightarrow> listFiles_queryParts roots options = Inl e"
    by (cases "listFiles_queryParts roots options") (simp_all add: listFiles_params_def Let_def)
  then show ?thesis by (simp only: listFiles_queryParts_throws)
qed

lemma params_get_pageSize:
  "listFiles_params roots options = Inr params \<Longrightarrow>
   params_get (js ''pageSize'') params = Some (String_of_int (safeSize (pageSize options)))"
  by (auto simp: params_get_def listFiles_params_def Let_def map_of_params_set to_USVString_js
      js_eq_iff to_USVString_String_of_int split: option.splits sum.splits)

lemma params_get_q:
  "listFiles_params roots options = Inr params \<Longrightarrow>
   \<exists>queryParts. listFiles_queryParts roots options = Inr queryParts
     \<and> params_get (js ''q'') params = Some (to_USVString (join (js '' and '') queryParts))"
  by (auto simp: params_get_def listFiles_params_def Let_def map_of_params_set to_USVString_js
      split: option.splits sum.splits)

lemma buildParentsQuery_empty_iff: "buildParentsQuery roots = [] \<longleftrightarrow> roots = []"
  by (cases roots) (auto simp: buildParentsQuery_def Let_def sq_def js_def)

lemma trim_cat: "trim (js ''cat'') = js ''cat''"
  by (simp add: trim_def js_def is_js_space_def)

lemma escapeQueryValue_cat: "escapeQueryValue (js ''cat'') = js ''cat''"
  by (simp add: js_def apos_def)

lemma buildTypeClause_images:
  "buildTypeClause (Some (js ''images''))
     = Inr (Some (js ''mimeType contains '' @ sq (js ''image/'')))"
  by (simp add: buildTypeClause_def TYPE_FILTERS_def js_empty_iff)

lemma escapeQueryValue_concat:
  "escapeQueryValue s = concat (map (\<lambda>c. if c = apos then [backslash, c] else [c]) s)"
  by (induction s) auto

lemma queryParts_search:
  "trim s \<noteq> [] \<Longrightarrow> buildTypeClause (type options) = Inr clause \<Longrightarrow>
   listFiles_queryParts roots (options\<lparr>search := Some s\<rparr>) =
     Inr ([js ''trashed = false''] @ (if roots = [] then [] else [buildParentsQuery roots]) @
          [js ''name contains '' @ sq (escapeQueryValue (trim s))] @
          (case clause of Some c \<Rightarrow> if c = [] then [] else [c] | None \<Rightarrow> []))"
  by (simp add: listFiles_queryParts_def Let_def buildParentsQuery_empty_iff split: option.splits)

lemma listFiles_params_cases:
  obtains (throws) "listFiles_params roots options = Inl TypeError"
      "type options = Some (js ''__proto__'') \<or> type options = Some (js ''__defineGetter__'')
       \<or> type options = Some (js ''__defineSetter__'')"
    | (sends) clause params where "buildTypeClause (type options) = Inr clause"
      "listFiles_params roots options = Inr params"
proof (cases "listFiles_params roots options")
  case (Inl e)
  then have "buildTypeClause (type options) = Inl e" by (simp only: listFiles_params_throws)
  then have "e = TypeError \<and> (type options = Some (js ''__proto__'')
      \<or> type options = Some (js ''__defineGetter__'') \<or> type options = Some (js ''__defineSetter__''))"
    by (simp only: buildTypeClause_throws)
  with Inl show ?thesis by (intro throws) simp_all
next
  case (Inr params)
  show ?thesis
  proof (cases "buildTypeClause (type options)")
    case (Inl e)
    then have "listFiles_params roots options = Inl e" by (simp only: listFiles_params_throws)
    with Inr show ?thesis by simp
  next
    case inr: (Inr clause)
    from inr Inr show ?thesis by (rule sends)
  qed
qed

text \<open>
  C8. \<open>listFiles\<close> with type \<open>images\<close> and search \<open>cat\<close> sends a request whose \<open>q\<close>
  parameter is the join, with separator \<open>and\<close>, of \<open>trashed = false\<close>, the parent
  clause when roots are configured, \<open>name contains 'cat'\<close> and the OR-join of the image
  predicates (there is one), as the USVString a \<open>URLSearchParams\<close> holds. For every
  search term, \<open>escapeQueryValue\<close> puts a backslash before each apostrophe and changes
  nothing else. For every search term that is not blank and all other options,
  \<open>listFiles\<close> either throws the \<open>TypeError\<close> of \<open>buildTypeClause\<close>, which happens for
  the types \<open>__proto__\<close>, \<open>__defineGetter__\<close> and \<open>__defineSetter__\<close> only, or sends
  a \<open>q\<close> whose name clause holds the trimmed term escaped so. The conversion to a
  USVString changes no string without surrogate code units, and \<open>O'Brien\<close> becomes
  \<open>O\'Brien\<close>.
\<close>

theorem C8_list_query:
  "(\<exists>params.
      listFiles_params roots
        \<lparr>pageSize = ps, pageToken = pt, search = Some (js ''cat''), type = Some (js ''images'')\<rparr>
        = Inr params
      \<and> params_get (js ''q'') params
        = Some (to_USVString (join (js '' and '')
            ([js ''trashed = false''] @
             (if roots = [] then [] else [buildParentsQuery roots]) @
             [js ''name contains '' @ sq (js ''cat''),
              join (js '' or '') [js ''mimeType contains '' @ sq (js ''image/'')]]))))
   \<and> escapeQueryValue s = concat (map (\<lambda>c. if c = apos then [backslash, c] else [c]) s)
   \<and> (trim s \<noteq> [] \<longrightarrow>
        (listFiles_params roots (options\<lparr>search := Some s\<rparr>) = Inl TypeError
         \<and> (type options = Some (js ''__proto__'') \<or> type options = Some (js ''__defineGetter__'')
            \<or> type options = Some (js ''__defineSetter__'')))
      \<or> (\<exists>clause params.
            buildTypeClause (type options) = Inr clause
          \<and> listFiles_params roots (options\<lparr>search := Some s\<rparr>) = Inr params
          \<and> params_get (js ''q'') params
            = Some (to_USVString (join (js '' and '')
                ([js ''trashed = false''] @
                 (if roots = [] then [] else [buildParentsQuery roots]) @
                 [js ''name contains '' @ sq (escapeQueryValue (trim s))] @
                 (case clause of Some c \<Rightarrow> if c = [] then [] else [c] | None \<Rightarrow> []))))))
   \<and> ((\<forall>c \<in> set x. \<not> is_high_surrogate c \<and> \<not> is_low_surrogate c) \<longrightarrow> to_USVString x = x)
   \<and> escapeQueryValue (js ''O'Brien'') = js ''O'' @ [backslash, apos] @ js ''Brien''"
proof (intro conjI impI)
  let ?o = "\<lparr>pageSize = ps, pageToken = pt, search = None, type = Some (js ''images'')\<rparr>"
  have trimmed: "trim (js ''cat'') \<noteq> []"
    by (simp add: trim_cat) (simp add: js_def)
  have parts: "listFiles_queryParts roots (?o\<lparr>search := Some (js ''cat'')\<rparr>)
        = Inr ([js ''trashed = false''] @
          (if roots = [] then [] else [buildParentsQuery roots]) @
          [js ''name contains '' @ sq (js ''cat''),
           join (js '' or '') [js ''mimeType contains '' @ sq (js ''image/'')]])"
    using queryParts_search [OF trimmed, of ?o _ roots] buildTypeClause_images
    by (simp add: trim_cat escapeQueryValue_cat sq_def)
  have "buildTypeClause (type (?o\<lparr>search := Some (js ''cat'')\<rparr>)) \<noteq> Inl e" for e
    by (simp add: buildTypeClause_images)
  then obtain params where sent: "listFiles_params roots (?o\<lparr>search := Some (js ''cat'')\<rparr>) = Inr params"
    by (cases "listFiles_params roots (?o\<lparr>search := Some (js ''cat'')\<rparr>)")
      (simp_all only: listFiles_params_throws)
  from params_get_q [OF sent] parts
  have "params_get (js ''q'') params
        = Some (to_USVString (join (js '' and '')
            ([js ''trashed = false''] @
             (if roots = [] then [] else [buildParentsQuery roots]) @
             [js ''name contains '' @ sq (js ''cat''),
              join (js '' or '') [js ''mimeType contains '' @ sq (js ''image/'')]])))"
    by auto
  with sent show "\<exists>params.
      listFiles_params roots
        \<lparr>pageSize = ps, pageToken = pt, search = Some (js ''cat''), type = Some (js ''images'')\<rparr>
        = Inr params
      \<and> params_get (js ''q'') params
        = Some (to_USVString (join (js '' and '')
            ([js ''trashed = false''] @
             (if roots = [] then [] else [buildParentsQuery roots]) @
             [js ''name contains '' @ sq (js ''cat''),
              join (js '' or '') [js ''mimeType contains '' @ sq (js ''image/'')]])))"
    by auto
next
  show "escapeQueryValue s = concat (map (\<lambda>c. if c = apos then [backslash, c] else [c]) s)"
    by (rule escapeQueryValue_concat)
next
  assume ne: "trim s \<noteq> []"
  let ?o = "options\<lparr>search := Some s\<rparr>"
  have ty: "type ?o = type options" by simp
  show "(listFiles_params roots ?o = Inl TypeError
         \<and> (type options = Some (js ''__proto__'') \<or> type options = Some (js ''__defineGetter__'')
            \<or> type options = Some (js ''__defineSetter__'')))
      \<or> (\<exists>clause params.
            buildTypeClause (type options) = Inr clause
          \<and> listFiles_params roots ?o = Inr params
          \<and> params_get (js ''q'') params
            = Some (to_USVString (join (js '' and '')
                ([js ''trashed = false''] @
                 (if roots = [] then [] else [buildParentsQuery roots]) @
                 [js ''name contains '' @ sq (escapeQueryValue (trim s))] @
                 (case clause of Some c \<Rightarrow> if c = [] then [] else [c] | None \<Rightarrow> [])))))"
  proof (cases roots ?o rule: listFiles_params_cases)
    case throws
    then show ?thesis by (simp only: ty) simp
  next
    case (sends clause params)
    from sends(1) have c: "buildTypeClause (type options) = Inr clause" by (simp only: ty)
    from params_get_q [OF sends(2)] queryParts_search [OF ne c, of roots]
    have "params_get (js ''q'') params
            = Some (to_USVString (join (js '' and '')
                ([js ''trashed = false''] @
                 (if roots = [] then [] else [buildParentsQuery roots]) @
                 [js ''name contains '' @ sq (escapeQueryValue (trim s))] @
                 (case clause of Some c \<Rightarrow> if c = [] then [] else [c] | None \<Rightarrow> []))))"
      by auto
    with c sends(2) show ?thesis by blast
  qed
next
  assume "\<forall>c \<in> set x. \<not> is_high_surrogate c \<and> \<not> is_low_surrogate c"
  then show "to_USVString x = x" by (rule to_USVString_plain)
next
  show "escapeQueryValue (js ''O'Brien'') = js ''O'' @ [backslash, apos] @ js ''Brien''"
    by (simp add: js_def apos_def)
qed

theorem C8_list_query_witness:
  "trim (js '' O'Brien '') \<noteq> []
   \<and> (\<exists>params.
        listFiles_params [js ''root'']
          \<lparr>pageSize = None, pageToken = None, search = Some (js '' O'Brien ''), type = None\<rparr>
          = Inr params
      \<and> params_get (js ''q'') params
        = Some (js ''trashed = false and '' @ sq (js ''root'') @ js '' in parents and name contains ''
                @ sq (js ''O'' @ [backslash, apos] @ js ''Brien'')))
   \<and> listFiles_params [js ''root'']
        \<lparr>pageSize = None, pageToken = None, search = Some (js '' O'Brien ''),
         type = Some (js ''__proto__'')\<rparr> = Inl TypeError"
proof -
  let ?q = "js ''trashed = false and '' @ sq (js ''root'') @ js '' in parents and name contains ''
             @ sq (js ''O'' @ [backslash, apos] @ js ''Brien'')"
  have t: "trim (js '' O'Brien '') = js ''O'Brien''"
    by (simp add: trim_def js_def is_js_space_def)
  have ne: "trim (js '' O'Brien '') \<noteq> []"
    by (simp add: t) (simp add: js_def)
  have e: "escapeQueryValue (js ''O'Brien'') = js ''O'' @ [backslash, apos] @ js ''Brien''"
    by (simp add: js_def apos_def)
  have none: "buildTypeClause None = Inr (Some [])"
    by (simp add: buildTypeClause_def)
  have proto: "buildTypeClause (Some (js ''__proto__'')) = Inl TypeError"
    by (simp add: buildTypeClause_throws)
  have j: "join (js '' and '')
              [js ''trashed = false'', sq (js ''root'') @ js '' in parents'',
               js ''name contains '' @ sq (js ''O'' @ [backslash, apos] @ js ''Brien'')] = ?q"
    by (simp add: js_def)
  have "\<forall>c \<in> set ?q. \<not> is_high_surrogate c \<and> \<not> is_low_surrogate c"
    using plain_js by (auto simp: sq_def apos_def backslash_def surrogate_unat)
  then have u: "to_USVString ?q = ?q" by (rule to_USVString_plain)
  have p: "buildParentsQuery [js ''root''] = sq (js ''root'') @ js '' in parents''"
    by (simp add: buildParentsQuery_def)
  let ?n = "\<lparr>pageSize = None, pageToken = None, search = None, type = None\<rparr>"
  let ?p = "\<lparr>pageSize = None, pageToken = None, search = None, type = Some (js ''__proto__'')\<rparr>"
  note sent = C8_list_query [of "[js ''root'']" None None "js '' O'Brien ''" ?n "[]",
      THEN conjunct2, THEN conjunct2, THEN conjunct1, rule_format, OF ne]
  note thrown = C8_list_query [of "[js ''root'']" None None "js '' O'Brien ''" ?p "[]",
      THEN conjunct2, THEN conjunct2, THEN conjunct1, rule_format, OF ne]
  from sent obtain clause params where s:
    "buildTypeClause (type ?n) = Inr clause"
    "listFiles_params [js ''root''] (?n\<lparr>search := Some (js '' O'Brien '')\<rparr>) = Inr params"
    "params_get (js ''q'') params
       = Some (to_USVString (join (js '' and '')
           ([js ''trashed = false''] @
            (if [js ''root''] = [] then [] else [buildParentsQuery [js ''root'']]) @
            [js ''name contains '' @ sq (escapeQueryValue (trim (js '' O'Brien '')))] @
            (case clause of Some c \<Rightarrow> if c = [] then [] else [c] | None \<Rightarrow> []))))"
    by auto
  from s(1) have "clause = Some []" by (simp add: none)
  with s(3) have "params_get (js ''q'') params
       = Some (to_USVString (join (js '' and '')
              [js ''trashed = false'', sq (js ''root'') @ js '' in parents'',
               js ''name contains '' @ sq (js ''O'' @ [backslash, apos] @ js ''Brien'')]))"
    by (simp add: t e p)
  then have "params_get (js ''q'') params = Some ?q" by (simp only: j u)
  with s(2) have "\<exists>params.
        listFiles_params [js ''root'']
          \<lparr>pageSize = None, pageToken = None, search = Some (js '' O'Brien ''), type = None\<rparr>
          = Inr params
      \<and> params_get (js ''q'') params = Some ?q"
    by auto
  moreover from thrown have "listFiles_params [js ''root'']
        \<lparr>pageSize = None, pageToken = None, search = Some (js '' O'Brien ''),
         type = Some (js ''__proto__'')\<rparr> = Inl TypeError"
    by (auto simp: proto)
  ultimately show ?thesis using ne by simp
qed

text \<open>
  C9, as the claim states it, fails for the requested size 0: it is below 1 and the
  \<open>pageSize\<close> sent is 24, not 1.
\<close>

theorem C9_pageSize_zero_counterexample:
  "(0::int) < 1
   \<and> (\<exists>params.
        listFiles_params [] \<lparr>pageSize = Some 0, pageToken = None, search = None, type = None\<rparr>
          = Inr params
      \<and> params_get (js ''pageSize'') params = Some (js ''24''))
   \<and> js ''24'' \<noteq> js ''1''"
proof -
  let ?o = "\<lparr>pageSize = Some 0, pageToken = None, search = None, type = None\<rparr>"
  have "buildTypeClause (type ?o) \<noteq> Inl e" for e
    by (simp add: buildTypeClause_def)
  then obtain params where sent: "listFiles_params [] ?o = Inr params"
    by (cases "listFiles_params [] ?o") (simp_all only: listFiles_params_throws)
  have "String_of_int (safeSize (pageSize ?o)) = js ''24''"
    by (simp add: safeSize_def MAX_LIST_PAGE_SIZE_def String_of_int_def dec_nat.simps js_def)
  with params_get_pageSize [OF sent] sent show ?thesis
    by (auto simp: js_eq_iff)
qed

text \<open>
  C9, amended. Whenever \<open>listFiles\<close> sends its request, and it does unless
  \<open>buildTypeClause\<close> throws for one of the types \<open>__proto__\<close>, \<open>__defineGetter__\<close>
  and \<open>__defineSetter__\<close>, the \<open>pageSize\<close> sent to the Drive list endpoint lies in
  [1, 100]: a request above 100 is sent as 100, a negative request as 1, a request within
  [1, 100] unchanged, and an absent request or the request 0 as the default 24.
\<close>

theorem C9_pageSize_sent:
  "((listFiles_params roots options = Inl TypeError
     \<and> (type options = Some (js ''__proto__'') \<or> type options = Some (js ''__defineGetter__'')
        \<or> type options = Some (js ''__defineSetter__'')))
    \<or> (\<exists>params. listFiles_params roots options = Inr params
          \<and> params_get (js ''pageSize'') params
            = Some (String_of_int (safeSize (pageSize options)))))
   \<and> 1 \<le> safeSize (pageSize options) \<and> safeSize (pageSize options) \<le> 100
   \<and> safeSize (pageSize options) =
       (case pageSize options of
          None \<Rightarrow> 24
        | Some n \<Rightarrow> if n = 0 then 24 else if 100 < n then 100 else if n < 1 then 1 else n)"
proof -
  have "(listFiles_params roots options = Inl TypeError
     \<and> (type options = Some (js ''__proto__'') \<or> type options = Some (js ''__defineGetter__'')
        \<or> type options = Some (js ''__defineSetter__'')))
    \<or> (\<exists>params. listFiles_params roots options = Inr params
          \<and> params_get (js ''pageSize'') params
            = Some (String_of_int (safeSize (pageSize options))))"
  proof (cases roots options rule: listFiles_params_cases)
    case throws
    then show ?thesis by simp
  next
    case (sends clause params)
    from params_get_pageSize [OF sends(2)] sends(2) show ?thesis by blast
  qed
  then show ?thesis by (simp add: safeSize_cases split: option.splits)
qed

theorem C9_pageSize_sent_witness:
  "(\<exists>params.
      listFiles_params [] \<lparr>pageSize = Some 250, pageToken = None, search = None, type = None\<rparr>
        = Inr params
    \<and> params_get (js ''pageSize'') params = Some (js ''100''))
   \<and> safeSize (Some (- 3)) = 1"
proof -
  let ?big = "\<lparr>pageSize = Some 250, pageToken = None, search = None, type = None\<rparr>"
  let ?neg = "\<lparr>pageSize = Some (- 3), pageToken = None, search = None, type = None\<rparr>"
  have d: "String_of_int 100 = js ''100''"
    by (simp add: String_of_int_def dec_nat.simps js_def)
  from C9_pageSize_sent [of "[]" ?big]
  have "safeSize (Some 250) = 100"
    and "\<exists>params. listFiles_params [] ?big = Inr params
          \<and> params_get (js ''pageSize'') params = Some (String_of_int (safeSize (Some 250)))"
    by auto
  then have "\<exists>params. listFiles_params [] ?big = Inr params
          \<and> params_get (js ''pageSize'') params = Some (js ''100'')"
    by (simp only: d)
  moreover from C9_pageSize_sent [of "[]" ?neg] have "safeSize (Some (- 3)) = 1"
    by simp
  ultimately show ?thesis by blast
qed

section \<open>Properties of base64url, of the JSON text and of the assertion\<close>

lemma unat_b64_char:
  "unat (b64_char i) = (if i < 26 then 65 + i else if i < 52 then 71 + i else if i < 62 then i - 4 else if i = 62 then 43 else 47)"
proof -
  have small: "unat (of_nat n :: 16 word) = n" if "n < 65536" for n
    using that by (simp add: unat_of_nat)
  consider "i < 26" | "26 \<le> i" "i < 52" | "52 \<le> i" "i < 62" | "i = 62" | "62 < i"
    by linarith
  then show ?thesis
  proof cases
    case 1
    then have "unat (of_nat (65 + i) :: 16 word) = 65 + i" by (intro small) simp
    with 1 show ?thesis by (simp only: b64_char_def if_True)
  next
    case 2
    then have "unat (of_nat (97 + (i - 26)) :: 16 word) = 97 + (i - 26)" by (intro small) simp
    with 2 show ?thesis by (simp only: b64_char_def) simp
  next
    case 3
    then have "unat (of_nat (48 + (i - 52)) :: 16 word) = 48 + (i - 52)" by (intro small) simp
    with 3 show ?thesis by (simp only: b64_char_def) simp
  next
    case 4
    then show ?thesis by (simp add: b64_char_def)
  next
    case 5
    then show ?thesis by (simp add: b64_char_def)
  qed
qed

lemma unat_url_char:
  "unat (url_char i) = (if i < 26 then 65 + i else if i < 52 then 71 + i else if i < 62 then i - 4 else if i = 62 then 45 else 95)"
  unfolding url_char_def Let_def
  by (auto simp: word_unat_eq_iff unat_b64_char)

lemma b64url_value_url_char: "i < 64 \<Longrightarrow> b64url_value (url_char i) = Some i"
  unfolding b64url_value_def
  by (auto simp: word_le_nat_alt word_unat_eq_iff unat_url_char)

lemma url_char_not_pad: "url_char i \<noteq> 0x3D" "url_char i \<noteq> 0x2E"
  by (auto simp: word_unat_eq_iff unat_url_char)


lemma urlsafe_simps:
  "urlsafe [] = []"
  "urlsafe (b64_char i # xs) = url_char i # urlsafe xs"
  "urlsafe (0x3D # xs) = 0x3D # urlsafe xs"
  "urlsafe (xs @ ys) = urlsafe xs @ urlsafe ys"
  by (simp_all add: urlsafe_def replace_char_def url_char_def Let_def)

lemma replace_b64_char:
  "replace_char 0x2F 0x5F (replace_char 0x2B 0x2D (map b64_char vs)) = map url_char vs"
  by (simp add: replace_char_def url_char_def Let_def)

lemma strip_padding_append:
  "strip_padding ys \<noteq> [] \<Longrightarrow> strip_padding (xs @ ys) = xs @ strip_padding ys"
  by (auto simp: strip_padding_def dropWhile_append)

lemma strip_padding_url_chars: "strip_padding (map url_char vs) = map url_char vs"
proof (cases vs rule: rev_cases)
  case Nil
  then show ?thesis by (simp add: strip_padding_def)
next
  case (snoc ws v)
  then show ?thesis by (simp add: strip_padding_def url_char_not_pad)
qed

lemma strip_padding_pad:
  "strip_padding (xs @ [0x3D]) = strip_padding xs"
  by (simp add: strip_padding_def)

lemma b64_encode_values:
  "strip_padding (urlsafe (b64_encode bs)) = map url_char (b64_values bs)"
proof (induction bs rule: b64_values.induct)
  case 1
  show ?case by (simp add: strip_padding_def urlsafe_simps)
next
  case (2 a)
  have "strip_padding (map url_char [a div 4, (a mod 4) * 16] @ [0x3D] @ [0x3D])
        = map url_char [a div 4, (a mod 4) * 16]"
    unfolding append_assoc [symmetric] strip_padding_pad by (rule strip_padding_url_chars)
  then show ?case by (simp add: urlsafe_simps)
next
  case (3 a b)
  have "strip_padding (map url_char [a div 4, (a mod 4) * 16 + b div 16, (b mod 16) * 4] @ [0x3D])
        = map url_char [a div 4, (a mod 4) * 16 + b div 16, (b mod 16) * 4]"
    unfolding strip_padding_pad by (rule strip_padding_url_chars)
  then show ?case by (simp add: urlsafe_simps)
next
  case (4 a b c rest)
  let ?front = "[a div 4, (a mod 4) * 16 + b div 16, (b mod 16) * 4 + c div 64, c mod 64]"
  let ?R = "urlsafe (b64_encode rest)"
  have split: "urlsafe (b64_encode (a # b # c # rest)) = map url_char ?front @ ?R"
    by (simp add: urlsafe_simps)
  show ?case
  proof (cases rest)
    case Nil
    then have "?R = []" by (simp add: urlsafe_simps)
    then show ?thesis
      using strip_padding_url_chars [of ?front] Nil unfolding split by simp
  next
    case (Cons r rs)
    then have "b64_values rest \<noteq> []" by (cases rs rule: b64_values.cases) auto
    then have "strip_padding ?R \<noteq> []" using 4 by simp
    then have "strip_padding (map url_char ?front @ ?R) = map url_char ?front @ strip_padding ?R"
      by (rule strip_padding_append)
    then show ?thesis unfolding split using 4 by simp
  qed
qed

lemma b64_values_bound: "list_all (\<lambda>b. b < 256) bs \<Longrightarrow> list_all (\<lambda>v. v < 64) (b64_values bs)"
  by (induction bs rule: b64_values.induct) (auto simp: div_less_iff_less_mult)

lemma b64_decode_values_b64_values:
  "list_all (\<lambda>b. b < 256) bs \<Longrightarrow> b64_decode_values (b64_values bs) = Some bs"
proof (induction bs rule: b64_values.induct)
  case 1
  show ?case by simp
next
  case (2 a)
  show ?case by simp
next
  case (3 a b)
  then have "b < 256" by simp
  then have "(a mod 4 * 16 + b div 16) div 16 = a mod 4" "(a mod 4 * 16 + b div 16) mod 16 = b div 16"
    "b mod 16 * 4 div 4 = b mod 16"
    by (simp_all add: div_less_iff_less_mult)
  then show ?case by simp
next
  case (4 a b c rest)
  then have "b < 256" "c < 256" by simp_all
  then have "(a mod 4 * 16 + b div 16) div 16 = a mod 4" "(a mod 4 * 16 + b div 16) mod 16 = b div 16"
    "(b mod 16 * 4 + c div 64) div 4 = b mod 16" "(b mod 16 * 4 + c div 64) mod 4 = c div 64"
    by (simp_all add: div_less_iff_less_mult)
  moreover have "b64_decode_values (b64_values rest) = Some rest" using 4 by simp
  ultimately show ?case by simp
qed

lemma decode_url_chars:
  "list_all (\<lambda>v. v < 64) vs \<Longrightarrow>
   base64UrlDecode (map url_char vs) = map_option (map of_nat) (b64_decode_values vs)"
proof -
  assume a: "list_all (\<lambda>v. v < 64) vs"
  then have "map (\<lambda>c. the (b64url_value c)) (map url_char vs) = vs"
    by (induction vs) (auto simp: b64url_value_url_char)
  moreover from a have "list_all (\<lambda>c. b64url_value c \<noteq> None) (map url_char vs)"
    by (induction vs) (auto simp: b64url_value_url_char)
  ultimately show ?thesis by (simp add: base64UrlDecode_def)
qed

lemma base64Url_roundtrip:
  assumes "base64UrlEncode s = Inr e"
  shows "base64UrlDecode e = Some s" and "0x3D \<notin> set e" and "0x2E \<notin> set e"
proof -
  from assms have latin: "list_all (\<lambda>c. c \<le> 0xFF) s"
    and e: "e = strip_padding (urlsafe (b64_encode (map unat s)))"
    by (auto simp: base64UrlEncode_def btoa_def split: if_splits)
  from e have e': "e = map url_char (b64_values (map unat s))"
    by (simp add: b64_encode_values)
  from latin have bytes: "list_all (\<lambda>b. b < 256) (map unat s)"
    by (induction s) (auto simp: word_le_nat_alt)
  have units: "map of_nat (map unat s) = s"
    by (induction s) auto
  show "base64UrlDecode e = Some s"
    unfolding e' using decode_url_chars [OF b64_values_bound [OF bytes]]
      b64_decode_values_b64_values [OF bytes] units by simp
  show "0x3D \<notin> set e" "0x2E \<notin> set e"
    unfolding e' using url_char_not_pad by auto
qed

lemma JSON_stringify_jwt_header: \<open>JSON_stringify jwt_header = js ''{"alg":"RS256","typ":"JWT"}''\<close>
  by (simp add: JSON_stringify_def jwt_header_def js_def QuoteJSONString_def stringify_value_def backslash_def)

lemma JSON_stringify_jwt_payload: \<open>JSON_stringify (jwt_payload a now) =
   js ''{'' @ (case client_email a of None \<Rightarrow> [] | Some e \<Rightarrow> js ''"iss":'' @ QuoteJSONString e @ js '','') @
   js ''"scope":"https://www.googleapis.com/auth/drive","aud":"https://oauth2.googleapis.com/token","exp":'' @
   String_of_int (now div 1000 + 3600) @ js '',"iat":'' @ String_of_int (now div 1000) @ js ''}''\<close>
  by (simp add: JSON_stringify_def jwt_payload_def js_def QuoteJSONString_def stringify_value_def backslash_def DRIVE_SCOPE_def TOKEN_ENDPOINT_def Let_def split: option.splits)

lemma split_str_single_last:
  "d \<notin> set xs \<Longrightarrow> split_str [d] acc xs = [rev acc @ xs]"
  by (induction xs arbitrary: acc) auto

lemma split_str_single:
  "d \<notin> set xs \<Longrightarrow> split_str [d] acc (xs @ d # rest) = (rev acc @ xs) # split_str [d] [] rest"
  by (induction xs arbitrary: acc) auto

lemma unat_of_nat16: "n < 65536 \<Longrightarrow> unat (of_nat n :: 16 word) = n"
  by (simp add: unat_of_nat)

lemma of_char_latin: "(of_char c :: 16 word) \<le> 0xFF"
proof -
  have lt: "(of_char c :: nat) < 256" by (rule String.nat_of_char_less_256)
  then have "unat (of_nat (of_char c :: nat) :: 16 word) = of_char c"
    using unat_of_nat16 [of "of_char c"] by linarith
  then have "unat (of_char c :: 16 word) = (of_char c :: nat)"
    by (simp only: of_nat_of_char)
  moreover from lt have "(of_char c :: nat) \<le> 255" by linarith
  ultimately show ?thesis by (simp only: word_le_nat_alt) simp
qed

lemma ucast_latin: "(ucast (b :: 8 word) :: 16 word) \<le> 0xFF"
proof -
  have "unat b < 256" using unsigned_less [of b, where 'a = nat] by simp
  moreover have "unat (ucast b :: 16 word) \<le> unat b"
    by (simp add: unsigned_ucast_eq take_bit_nat_less_eq_self)
  ultimately have "unat (ucast b :: 16 word) \<le> 255" by linarith
  then show ?thesis by (simp only: word_le_nat_alt) simp
qed

lemma latin_js: "list_all (\<lambda>c. c \<le> 0xFF) (js s)"
  by (induction s) (simp_all add: js_def of_char_latin)

lemma latin_dec_nat: "list_all (\<lambda>c. c \<le> 0xFF) (dec_nat n)"
proof (induction n rule: dec_nat.induct)
  case (1 n)
  have d: "(of_nat (48 + k) :: 16 word) \<le> 0xFF" if "k < 10" for k
  proof -
    from that have "unat (of_nat (48 + k) :: 16 word) = 48 + k" by (intro unat_of_nat16) simp
    with that show ?thesis by (simp only: word_le_nat_alt) simp
  qed
  show ?case
  proof (cases "n < 10")
    case True
    then show ?thesis using d [of n] by (subst dec_nat.simps) (simp del: of_nat_add)
  next
    case False
    then show ?thesis using 1 d [of "n mod 10"] by (subst dec_nat.simps) (simp del: of_nat_add)
  qed
qed

lemma latin_String_of_int: "list_all (\<lambda>c. c \<le> 0xFF) (String_of_int i)"
  by (simp add: String_of_int_def latin_dec_nat)

lemma latin_hex_digit: "n < 16 \<Longrightarrow> hex_digit n \<le> 0xFF"
proof -
  assume n: "n < 16"
  then have "unat (of_nat (48 + n) :: 16 word) = 48 + n" "unat (of_nat (87 + n) :: 16 word) = 87 + n"
    by (intro unat_of_nat16; simp)+
  with n show ?thesis
    unfolding hex_digit_def by (simp only: word_le_nat_alt) simp
qed

lemma latin_unicode_escape: "list_all (\<lambda>c. c \<le> 0xFF) (unicode_escape c)"
proof -
  have "unat c < 65536" using unsigned_less [of c, where 'a = nat] by simp
  then have "unat c div 4096 < 16" by simp
  then show ?thesis
    by (simp add: unicode_escape_def Let_def latin_hex_digit backslash_def)
qed

lemma quote_units_no_surrogate:
  assumes lo: "\<not> 0xD800 \<le> c" "\<not> 0xDC00 \<le> c"
  shows "quote_units (c # cs) =
     (if c = 0x22 then [backslash, 0x22]
      else if c = backslash then [backslash, backslash]
      else if c = 0x08 then [backslash, 0x62]
      else if c = 0x0C then [backslash, 0x66]
      else if c = 0x0A then [backslash, 0x6E]
      else if c = 0x0D then [backslash, 0x72]
      else if c = 0x09 then [backslash, 0x74]
      else if c < 0x20 then unicode_escape c
      else [c]) @ quote_units cs"
  by (simp only: quote_units.simps lo simp_thms if_False append_Cons append_Nil
      if_distrib [of "\<lambda>x. x @ quote_units cs"] cong: if_cong)

lemma latin_quote_units:
  "list_all (\<lambda>c. c \<le> 0xFF) s \<Longrightarrow> list_all (\<lambda>c. c \<le> 0xFF) (quote_units s)"
proof (induction s)
  case Nil
  show ?case by simp
next
  case (Cons c cs)
  then have c: "c \<le> 0xFF" and ih: "list_all (\<lambda>c. c \<le> 0xFF) (quote_units cs)" by simp_all
  from c have lo: "\<not> 0xD800 \<le> c" "\<not> 0xDC00 \<le> c" by (simp_all add: word_le_nat_alt)
  have bs: "backslash \<le> 0xFF" by (simp add: backslash_def)
  have "list_all (\<lambda>c. c \<le> 0xFF)
     (if c = 0x22 then [backslash, 0x22]
      else if c = backslash then [backslash, backslash]
      else if c = 0x08 then [backslash, 0x62]
      else if c = 0x0C then [backslash, 0x66]
      else if c = 0x0A then [backslash, 0x6E]
      else if c = 0x0D then [backslash, 0x72]
      else if c = 0x09 then [backslash, 0x74]
      else if c < 0x20 then unicode_escape c
      else [c])"
    using c bs latin_unicode_escape [of c]
    by (simp only: list.pred_inject if_distrib [of "list_all (\<lambda>c. c \<le> 0xFF)"])
       (simp only: simp_thms if_True if_False if_cancel split: if_split, simp)
  with ih show ?case
    by (simp only: quote_units_no_surrogate [OF lo] list_all_append simp_thms)
qed

lemma latin_QuoteJSONString:
  "list_all (\<lambda>c. c \<le> 0xFF) s \<Longrightarrow> list_all (\<lambda>c. c \<le> 0xFF) (QuoteJSONString s)"
  by (simp add: QuoteJSONString_def latin_quote_units)

lemma latin_header: "list_all (\<lambda>c. c \<le> 0xFF) (JSON_stringify jwt_header)"
  unfolding JSON_stringify_jwt_header by (rule latin_js)

lemma base64UrlEncode_total:
  "list_all (\<lambda>c. c \<le> 0xFF) s \<Longrightarrow> \<exists>e. base64UrlEncode s = Inr e"
  by (simp add: base64UrlEncode_def btoa_def)

lemma arrayBufferToBase64_total: "\<exists>b. arrayBufferToBase64 buffer = Inr b"
proof -
  have "list_all (\<lambda>c. c \<le> 0xFF) (map ucast buffer :: jsstring)"
    by (induction buffer) (simp_all add: ucast_latin)
  then show ?thesis by (simp add: arrayBufferToBase64_def btoa_def)
qed

lemma latin_payload:
  assumes "case client_email a of None \<Rightarrow> True | Some e \<Rightarrow> list_all (\<lambda>c. c \<le> 0xFF) e"
  shows "list_all (\<lambda>c. c \<le> 0xFF) (JSON_stringify (jwt_payload a now))"
proof (cases "client_email a")
  case None
  then show ?thesis
    unfolding JSON_stringify_jwt_payload by (simp add: latin_js latin_String_of_int)
next
  case (Some e)
  with assms have "list_all (\<lambda>c. c \<le> 0xFF) (QuoteJSONString e)"
    by (simp add: latin_QuoteJSONString)
  with Some show ?thesis
    unfolding JSON_stringify_jwt_payload by (simp add: latin_js latin_String_of_int)
qed

lemma sign_segment:
  assumes "sign signer input key = Inr sg"
  shows "0x3D \<notin> set sg \<and> 0x2E \<notin> set sg"
proof -
  from assms obtain pem where "key = Some pem"
    by (cases key) (simp_all add: sign_def)
  with assms obtain bytes where "signer pem input = Inr bytes"
    by (cases "signer pem input") (simp_all add: sign_def)
  with assms \<open>key = Some pem\<close> obtain b where b: "arrayBufferToBase64 bytes = Inr b"
    and sg: "sg = strip_padding (urlsafe b)"
    by (cases "arrayBufferToBase64 bytes") (simp_all add: sign_def)
  from b have "b = b64_encode (map unat (map ucast bytes :: jsstring))"
    by (simp add: arrayBufferToBase64_def btoa_def split: if_splits)
  with sg have "sg = map url_char (b64_values (map unat (map ucast bytes :: jsstring)))"
    by (simp only: b64_encode_values)
  then show ?thesis
    using url_char_not_pad by auto
qed

lemma ex_header: "base64UrlEncode (JSON_stringify jwt_header) = Inr (js ''eyJhbGciOiJSUzI1NiIsInR5cCI6IkpXVCJ9'')"
  unfolding JSON_stringify_jwt_header
  by (simp add: base64UrlEncode_def btoa_def js_def urlsafe_def replace_char_def strip_padding_def b64_char_def)

lemma ex_payload_text: \<open>JSON_stringify (jwt_payload ex_account 1700000000123) = js ''{"iss":"cdn@drive.iam","scope":"https://www.googleapis.com/auth/drive","aud":"https://oauth2.googleapis.com/token","exp":1700003600,"iat":1700000000}''\<close>
  unfolding JSON_stringify_jwt_payload
  by (simp add: ex_account_def QuoteJSONString_def String_of_int_def dec_nat.simps js_def backslash_def)

lemma ex_payload: "base64UrlEncode (JSON_stringify (jwt_payload ex_account 1700000000123)) = Inr (js ''eyJpc3MiOiJjZG5AZHJpdmUuaWFtIiwic2NvcGUiOiJodHRwczovL3d3dy5nb29nbGVhcGlzLmNvbS9hdXRoL2RyaXZlIiwiYXVkIjoiaHR0cHM6Ly9vYXV0aDIuZ29vZ2xlYXBpcy5jb20vdG9rZW4iLCJleHAiOjE3MDAwMDM2MDAsImlhdCI6MTcwMDAwMDAwMH0'')"
  unfolding ex_payload_text
  by (simp add: base64UrlEncode_def btoa_def js_def urlsafe_def replace_char_def strip_padding_def b64_char_def)

lemma ex_sign: "sign ex_signer input (Some pem) = Inr (js ''3q2-7w'')"
  by (simp add: sign_def ex_signer_def arrayBufferToBase64_def btoa_def js_def urlsafe_def replace_char_def strip_padding_def b64_char_def)

lemma split_str_dot3:
  assumes "0x2E \<notin> set h" "0x2E \<notin> set p" "0x2E \<notin> set sg"
  shows "split_str (js ''.'') [] (h @ js ''.'' @ p @ js ''.'' @ sg) = [h, p, sg]"
proof -
  have dot: "js ''.'' = [0x2E]" by (simp add: js_def)
  show ?thesis
    unfolding dot using assms
    by (simp add: split_str_single split_str_single_last)
qed

lemma sign_result:
  assumes "sign signer input key = Inr sg"
  shows "\<exists>pem bytes. key = Some pem \<and> signer pem input = Inr bytes
           \<and> base64UrlEncode (map ucast bytes) = Inr sg"
proof -
  from assms obtain pem where k: "key = Some pem"
    by (cases key) (simp_all add: sign_def)
  with assms obtain bytes where s: "signer pem input = Inr bytes"
    by (cases "signer pem input") (simp_all add: sign_def)
  with assms k obtain b where b: "arrayBufferToBase64 bytes = Inr b"
    and sg: "sg = strip_padding (urlsafe b)"
    by (cases "arrayBufferToBase64 bytes") (simp_all add: sign_def)
  from b sg have "base64UrlEncode (map ucast bytes) = Inr sg"
    by (simp add: base64UrlEncode_def arrayBufferToBase64_def)
  with k s show ?thesis by blast
qed

text \<open>
  C7. When \<open>generateServiceAccountAssertion\<close> returns an assertion, splitting it at the
  dots gives exactly three segments \<open>header.payload.signature\<close>: the first is the
  base64url encoding of the text \<open>JSON.stringify\<close> made of the header,
  \<open>{"alg":"RS256","typ":"JWT"}\<close>, and decodes to it; the second is the encoding of the
  text made of the payload (iss, scope, aud, exp, iat, with iat the seconds of
  \<open>Date.now()\<close> and exp an hour later) and decodes to it; the third is what \<open>sign\<close>
  returns for the first two segments joined by a dot and the record's private key, and
  decodes to the bytes the signer produced for that input and that key; no segment holds a
  padding character \<open>=\<close>. An assertion is returned whenever the e-mail has no code unit
  above 0xFF and the signer accepts the key, and none is returned when the record has no
  private key or the signer rejects it.
\<close>

theorem C7_jwt_assertion:
  \<open>(generateServiceAccountAssertion signer now a = Inr jwt \<longrightarrow>
      (case split_str (js ''.'') [] jwt of
         [h, p, sg] \<Rightarrow>
           jwt = h @ js ''.'' @ p @ js ''.'' @ sg
           \<and> base64UrlEncode (JSON_stringify jwt_header) = Inr h
           \<and> base64UrlEncode (JSON_stringify (jwt_payload a now)) = Inr p
           \<and> sign signer (h @ js ''.'' @ p) (private_key a) = Inr sg
           \<and> base64UrlDecode h = Some (JSON_stringify jwt_header)
           \<and> base64UrlDecode p = Some (JSON_stringify (jwt_payload a now))
           \<and> (\<exists>pem bytes. private_key a = Some pem
                \<and> signer pem (h @ js ''.'' @ p) = Inr bytes
                \<and> base64UrlDecode sg = Some (map ucast bytes))
           \<and> 0x3D \<notin> set h \<and> 0x3D \<notin> set p \<and> 0x3D \<notin> set sg
       | _ \<Rightarrow> False))
   \<and> JSON_stringify jwt_header = js ''{"alg":"RS256","typ":"JWT"}''
   \<and> JSON_stringify (jwt_payload a now) =
       js ''{'' @
       (case client_email a of None \<Rightarrow> [] | Some e \<Rightarrow> js ''"iss":'' @ QuoteJSONString e @ js '','') @
       js ''"scope":"https://www.googleapis.com/auth/drive","aud":"https://oauth2.googleapis.com/token","exp":'' @
       String_of_int (now div 1000 + 3600) @ js '',"iat":'' @ String_of_int (now div 1000) @ js ''}''
   \<and> ((case client_email a of None \<Rightarrow> True | Some e \<Rightarrow> list_all (\<lambda>c. c \<le> 0xFF) e)
        \<and> private_key a = Some pem \<and> (\<forall>input. \<exists>bytes. signer pem input = Inr bytes)
        \<longrightarrow> (\<exists>jwt. generateServiceAccountAssertion signer now a = Inr jwt))
   \<and> (private_key a = None \<or> (\<exists>pem e. private_key a = Some pem \<and> (\<forall>input. signer pem input = Inl e))
        \<longrightarrow> (\<exists>e. generateServiceAccountAssertion signer now a = Inl e))\<close>
proof (intro conjI impI)
  assume gen: "generateServiceAccountAssertion signer now a = Inr jwt"
  then obtain h where h: "base64UrlEncode (JSON_stringify jwt_header) = Inr h"
    by (cases "base64UrlEncode (JSON_stringify jwt_header)")
       (simp_all add: generateServiceAccountAssertion_def)
  with gen obtain p where p: "base64UrlEncode (JSON_stringify (jwt_payload a now)) = Inr p"
    by (cases "base64UrlEncode (JSON_stringify (jwt_payload a now))")
       (simp_all add: generateServiceAccountAssertion_def)
  with gen h obtain sg where sg: "sign signer (h @ js ''.'' @ p) (private_key a) = Inr sg"
    and jwt: "jwt = h @ js ''.'' @ p @ js ''.'' @ sg"
    by (cases "sign signer (h @ js ''.'' @ p) (private_key a)")
       (simp_all add: generateServiceAccountAssertion_def)
  note hs = base64Url_roundtrip [OF h] and ps = base64Url_roundtrip [OF p]
    and ss = sign_segment [OF sg]
  from sign_result [OF sg] obtain pem bytes where k: "private_key a = Some pem"
    and b: "signer pem (h @ js ''.'' @ p) = Inr bytes"
    and e: "base64UrlEncode (map ucast bytes) = Inr sg"
    by blast
  from k b base64Url_roundtrip(1) [OF e]
  have signed: "\<exists>pem bytes. private_key a = Some pem
                \<and> signer pem (h @ js ''.'' @ p) = Inr bytes
                \<and> base64UrlDecode sg = Some (map ucast bytes)"
    by blast
  from hs ps ss have "split_str (js ''.'') [] jwt = [h, p, sg]"
    unfolding jwt by (intro split_str_dot3) simp_all
  with hs ps ss jwt h p sg signed
  show "case split_str (js ''.'') [] jwt of
         [h, p, sg] \<Rightarrow>
           jwt = h @ js ''.'' @ p @ js ''.'' @ sg
           \<and> base64UrlEncode (JSON_stringify jwt_header) = Inr h
           \<and> base64UrlEncode (JSON_stringify (jwt_payload a now)) = Inr p
           \<and> sign signer (h @ js ''.'' @ p) (private_key a) = Inr sg
           \<and> base64UrlDecode h = Some (JSON_stringify jwt_header)
           \<and> base64UrlDecode p = Some (JSON_stringify (jwt_payload a now))
           \<and> (\<exists>pem bytes. private_key a = Some pem
                \<and> signer pem (h @ js ''.'' @ p) = Inr bytes
                \<and> base64UrlDecode sg = Some (map ucast bytes))
           \<and> 0x3D \<notin> set h \<and> 0x3D \<notin> set p \<and> 0x3D \<notin> set sg
       | _ \<Rightarrow> False"
    by simp
next
  show \<open>JSON_stringify jwt_header = js ''{"alg":"RS256","typ":"JWT"}''\<close>
    by (rule JSON_stringify_jwt_header)
next
  show \<open>JSON_stringify (jwt_payload a now) =
       js ''{'' @
       (case client_email a of None \<Rightarrow> [] | Some e \<Rightarrow> js ''"iss":'' @ QuoteJSONString e @ js '','') @
       js ''"scope":"https://www.googleapis.com/auth/drive","aud":"https://oauth2.googleapis.com/token","exp":'' @
       String_of_int (now div 1000 + 3600) @ js '',"iat":'' @ String_of_int (now div 1000) @ js ''}''\<close>
    by (rule JSON_stringify_jwt_payload)
next
  assume a: "(case client_email a of None \<Rightarrow> True | Some e \<Rightarrow> list_all (\<lambda>c. c \<le> 0xFF) e)
        \<and> private_key a = Some pem \<and> (\<forall>input. \<exists>bytes. signer pem input = Inr bytes)"
  obtain h where h: "base64UrlEncode (JSON_stringify jwt_header) = Inr h"
    using base64UrlEncode_total [OF latin_header] by blast
  from a obtain p where p: "base64UrlEncode (JSON_stringify (jwt_payload a now)) = Inr p"
    using base64UrlEncode_total [OF latin_payload, of a now] by blast
  from a obtain bytes where "signer pem (h @ js ''.'' @ p) = Inr bytes" by blast
  moreover obtain b where "arrayBufferToBase64 bytes = Inr b"
    using arrayBufferToBase64_total by blast
  ultimately have "sign signer (h @ js ''.'' @ p) (private_key a) = Inr (strip_padding (urlsafe b))"
    using a by (simp add: sign_def)
  with h p show "\<exists>jwt. generateServiceAccountAssertion signer now a = Inr jwt"
    by (simp add: generateServiceAccountAssertion_def)
next
  assume f: "private_key a = None
      \<or> (\<exists>pem e. private_key a = Some pem \<and> (\<forall>input. signer pem input = Inl e))"
  have "generateServiceAccountAssertion signer now a \<noteq> Inr jwt" for jwt
  proof
    assume gen: "generateServiceAccountAssertion signer now a = Inr jwt"
    then obtain h where h: "base64UrlEncode (JSON_stringify jwt_header) = Inr h"
      by (cases "base64UrlEncode (JSON_stringify jwt_header)")
         (simp_all add: generateServiceAccountAssertion_def)
    with gen obtain p where p: "base64UrlEncode (JSON_stringify (jwt_payload a now)) = Inr p"
      by (cases "base64UrlEncode (JSON_stringify (jwt_payload a now))")
         (simp_all add: generateServiceAccountAssertion_def)
    with gen h obtain sg where sg: "sign signer (h @ js ''.'' @ p) (private_key a) = Inr sg"
      by (cases "sign signer (h @ js ''.'' @ p) (private_key a)")
         (simp_all add: generateServiceAccountAssertion_def)
    from sign_result [OF sg] f show False by auto
  qed
  then show "\<exists>e. generateServiceAccountAssertion signer now a = Inl e"
    by (cases "generateServiceAccountAssertion signer now a") auto
qed

theorem C7_jwt_assertion_witness:
  \<open>generateServiceAccountAssertion ex_signer 1700000000123 ex_account
     = Inr (js ''eyJhbGciOiJSUzI1NiIsInR5cCI6IkpXVCJ9'' @ js ''.'' @ js ''eyJpc3MiOiJjZG5AZHJpdmUuaWFtIiwic2NvcGUiOiJodHRwczovL3d3dy5nb29nbGVhcGlzLmNvbS9hdXRoL2RyaXZlIiwiYXVkIjoiaHR0cHM6Ly9vYXV0aDIuZ29vZ2xlYXBpcy5jb20vdG9rZW4iLCJleHAiOjE3MDAwMDM2MDAsImlhdCI6MTcwMDAwMDAwMH0'' @ js ''.'' @ js ''3q2-7w'')
   \<and> base64UrlDecode (js ''eyJhbGciOiJSUzI1NiIsInR5cCI6IkpXVCJ9'') = Some (js ''{"alg":"RS256","typ":"JWT"}'')
   \<and> base64UrlDecode (js ''eyJpc3MiOiJjZG5AZHJpdmUuaWFtIiwic2NvcGUiOiJodHRwczovL3d3dy5nb29nbGVhcGlzLmNvbS9hdXRoL2RyaXZlIiwiYXVkIjoiaHR0cHM6Ly9vYXV0aDIuZ29vZ2xlYXBpcy5jb20vdG9rZW4iLCJleHAiOjE3MDAwMDM2MDAsImlhdCI6MTcwMDAwMDAwMH0'') = Some (js ''{"iss":"cdn@drive.iam","scope":"https://www.googleapis.com/auth/drive","aud":"https://oauth2.googleapis.com/token","exp":1700003600,"iat":1700000000}'')
   \<and> base64UrlDecode (js ''3q2-7w'') = Some [0xDE, 0xAD, 0xBE, 0xEF]
   \<and> 0x3D \<notin> set (js ''eyJhbGciOiJSUzI1NiIsInR5cCI6IkpXVCJ9'') \<and> 0x3D \<notin> set (js ''eyJpc3MiOiJjZG5AZHJpdmUuaWFtIiwic2NvcGUiOiJodHRwczovL3d3dy5nb29nbGVhcGlzLmNvbS9hdXRoL2RyaXZlIiwiYXVkIjoiaHR0cHM6Ly9vYXV0aDIuZ29vZ2xlYXBpcy5jb20vdG9rZW4iLCJleHAiOjE3MDAwMDM2MDAsImlhdCI6MTcwMDAwMDAwMH0'') \<and> 0x3D \<notin> set (js ''3q2-7w'')
   \<and> (case client_email ex_account of None \<Rightarrow> True | Some e \<Rightarrow> list_all (\<lambda>c. c \<le> 0xFF) e)
   \<and> private_key ex_account = Some (js ''PEM'')
   \<and> (\<forall>input. \<exists>bytes. ex_signer (js ''PEM'') input = Inr bytes)\<close>
proof -
  let ?h = "js ''eyJhbGciOiJSUzI1NiIsInR5cCI6IkpXVCJ9''"
  let ?p = "js ''eyJpc3MiOiJjZG5AZHJpdmUuaWFtIiwic2NvcGUiOiJodHRwczovL3d3dy5nb29nbGVhcGlzLmNvbS9hdXRoL2RyaXZlIiwiYXVkIjoiaHR0cHM6Ly9vYXV0aDIuZ29vZ2xlYXBpcy5jb20vdG9rZW4iLCJleHAiOjE3MDAwMDM2MDAsImlhdCI6MTcwMDAwMDAwMH0''"
  let ?s = "js ''3q2-7w''"
  have gen: "generateServiceAccountAssertion ex_signer 1700000000123 ex_account
      = Inr (?h @ js ''.'' @ ?p @ js ''.'' @ ?s)"
  proof -
    have pk: "private_key ex_account = Some (js ''PEM'')" by (simp add: ex_account_def)
    show ?thesis
      by (simp add: generateServiceAccountAssertion_def ex_header ex_payload ex_sign pk)
  qed
  have dots: "0x2E \<notin> set ?h" "0x2E \<notin> set ?p" "0x2E \<notin> set ?s"
    by (simp_all add: js_def)
  have sp: "split_str (js ''.'') [] (?h @ js ''.'' @ ?p @ js ''.'' @ ?s) = [?h, ?p, ?s]"
    using dots by (rule split_str_dot3)
  have pre: "(case client_email ex_account of None \<Rightarrow> True | Some e \<Rightarrow> list_all (\<lambda>c. c \<le> 0xFF) e)
      \<and> private_key ex_account = Some (js ''PEM'')
      \<and> (\<forall>input. \<exists>bytes. ex_signer (js ''PEM'') input = Inr bytes)"
    by (simp add: ex_account_def ex_signer_def latin_js)
  note inst = C7_jwt_assertion [of ex_signer 1700000000123 ex_account
      "?h @ js ''.'' @ ?p @ js ''.'' @ ?s" "js ''PEM''", THEN conjunct1, rule_format, OF gen]
  from inst have segs: "base64UrlDecode ?h = Some (JSON_stringify jwt_header)"
    "base64UrlDecode ?p = Some (JSON_stringify (jwt_payload ex_account 1700000000123))"
    "\<exists>pem bytes. private_key ex_account = Some pem
        \<and> ex_signer pem (?h @ js ''.'' @ ?p) = Inr bytes
        \<and> base64UrlDecode ?s = Some (map ucast bytes)"
    "0x3D \<notin> set ?h" "0x3D \<notin> set ?p" "0x3D \<notin> set ?s"
    by (simp_all only: sp list.case simp_thms)
  from segs(3) have "base64UrlDecode ?s = Some [0xDE, 0xAD, 0xBE, 0xEF]"
    by (auto simp: ex_signer_def)
  with segs(1,2,4,5,6) gen pre show ?thesis
    by (simp only: simp_thms ex_payload_text JSON_stringify_jwt_header)
qed

lemma loadServiceAccounts_loaded: "accountsLoaded s \<Longrightarrow> loadServiceAccounts w s = s"
  by (simp add: loadServiceAccounts_def)

lemma getAccessToken_loaded:
  assumes "accountsLoaded s" "getCurrentServiceAccount s = Some a"
  shows "getAccessToken w s =
    (case cache_lookup w s (accountKey a) of
       (Some tok, s1) \<Rightarrow> Some (Inr tok, s1)
     | (None, s1) \<Rightarrow>
         (case fetchServiceAccountToken w s1 a of
            (Inr tokenData, s2) \<Rightarrow>
              Some (Inr (access_token tokenData), cache_store w s2 (accountKey a) tokenData)
          | (Inl e, s2) \<Rightarrow>
              (let s3 = rotateServiceAccount (s2\<lparr>console := console s2 @ [Error_rotating (accountKey a)]\<rparr>)
               in if length (serviceAccounts s3) > 1 then getAccessToken w s3 else Some (Inl e, s3))))"
  by (subst getAccessToken.simps) (simp add: loadServiceAccounts_loaded assms)

lemma cache_lookup_frame:
  "cache_lookup w s key = (r, s') \<Longrightarrow> \<exists>n. s' = s\<lparr>now_reads := n\<rparr>"
proof (cases "cachedTokens s key")
  case None
  assume "cache_lookup w s key = (r, s')"
  with None have "s' = s\<lparr>now_reads := now_reads s\<rparr>" by (simp add: cache_lookup_def)
  then show ?thesis by blast
next
  case (Some c)
  assume "cache_lookup w s key = (r, s')"
  with Some have "s' = s\<lparr>now_reads := Suc (now_reads s)\<rparr>"
    by (auto simp: cache_lookup_def Date_now_def)
  then show ?thesis by blast
qed

lemma cache_lookup_invalid:
  assumes "\<forall>c. cachedTokens s key = Some c \<longrightarrow> (\<forall>k. expiresAt c \<le> clock w k + 60000)"
  shows "fst (cache_lookup w s key) = None"
proof (cases "cachedTokens s key")
  case None
  then show ?thesis by (simp add: cache_lookup_def)
next
  case (Some c)
  with assms have "expiresAt c \<le> clock w (now_reads s) + 60000" by blast
  with Some show ?thesis by (simp add: cache_lookup_def Date_now_def)
qed

lemma exchange_frame:
  "exchange w s req msg = (r, s') \<Longrightarrow> \<exists>tp. s' = s\<lparr>token_posts := tp\<rparr>"
  by (auto simp: exchange_def Let_def split: sum.splits option.splits if_splits)

lemma fetchServiceAccountToken_frame:
  "fetchServiceAccountToken w s a = (r, s') \<Longrightarrow>
     \<exists>tp. s' = s\<lparr>now_reads := Suc (now_reads s), mint_attempts := mint_attempts s @ [a],
                 token_posts := tp\<rparr>"
proof -
  assume f: "fetchServiceAccountToken w s a = (r, s')"
  let ?s = "s\<lparr>mint_attempts := mint_attempts s @ [a], now_reads := Suc (now_reads s)\<rparr>"
  show ?thesis
  proof (cases "generateServiceAccountAssertion (subtle_sign w) (clock w (now_reads s)) a")
    case (Inl e)
    with f have "s' = ?s" by (simp add: fetchServiceAccountToken_def Date_now_def)
    then have "s' = s\<lparr>now_reads := Suc (now_reads s), mint_attempts := mint_attempts s @ [a],
                 token_posts := token_posts s\<rparr>" by simp
    then show ?thesis by blast
  next
    case (Inr jwt)
    with f have "exchange w ?s (Jwt_bearer jwt) (js ''Failed to exchange service account JWT'') = (r, s')"
      by (simp add: fetchServiceAccountToken_def Date_now_def)
    from exchange_frame [OF this] obtain tp where "s' = ?s\<lparr>token_posts := tp\<rparr>" by blast
    then have "s' = s\<lparr>now_reads := Suc (now_reads s), mint_attempts := mint_attempts s @ [a],
                 token_posts := tp\<rparr>" by simp
    then show ?thesis by blast
  qed
qed

lemma cache_store_frame:
  "\<exists>n ct. cache_store w s key td = s\<lparr>now_reads := n, cachedTokens := ct\<rparr>"
  by (auto simp: cache_store_def Date_now_def)

lemma current_account:
  "serviceAccounts s \<noteq> [] \<Longrightarrow>
   getCurrentServiceAccount s =
     Some (serviceAccounts s ! (currentServiceAccountIndex s mod length (serviceAccounts s)))"
  by (simp add: getCurrentServiceAccount_def)

lemma current_account_in_set:
  "serviceAccounts s \<noteq> [] \<Longrightarrow>
   serviceAccounts s ! (currentServiceAccountIndex s mod length (serviceAccounts s))
     \<in> set (serviceAccounts s)"
  by simp

text \<open>One attempt whose mint fails: what the state is when the retry (or the throw) is reached.\<close>

lemma failed_attempt:
  assumes nv: "\<forall>c. cachedTokens s (accountKey a) = Some c \<longrightarrow> (\<forall>k. expiresAt c \<le> clock w k + 60000)"
    and mf: "mint_fails w a"
  shows "\<exists>s1 e s2 s3.
           cache_lookup w s (accountKey a) = (None, s1)
         \<and> fetchServiceAccountToken w s1 a = (Inl e, s2)
         \<and> s3 = rotateServiceAccount (s2\<lparr>console := console s2 @ [Error_rotating (accountKey a)]\<rparr>)
         \<and> accountsLoaded s3 = accountsLoaded s
         \<and> serviceAccounts s3 = serviceAccounts s
         \<and> cachedTokens s3 = cachedTokens s
         \<and> mint_attempts s3 = mint_attempts s @ [a]
         \<and> currentServiceAccountIndex s3 =
             (if length (serviceAccounts s) > 1
              then (currentServiceAccountIndex s + 1) mod length (serviceAccounts s)
              else currentServiceAccountIndex s)"
proof -
  obtain r s1 where cl: "cache_lookup w s (accountKey a) = (r, s1)" by (cases "cache_lookup w s (accountKey a)")
  with cache_lookup_invalid [OF nv] have r: "r = None" by simp
  from cache_lookup_frame [OF cl] obtain n where s1: "s1 = s\<lparr>now_reads := n\<rparr>" by blast
  obtain x s2 where f: "fetchServiceAccountToken w s1 a = (x, s2)" by (cases "fetchServiceAccountToken w s1 a")
  with mf obtain e where x: "x = Inl e"
    by (cases x) (auto simp: mint_fails_def dest: spec [of _ s1])
  from fetchServiceAccountToken_frame [OF f] obtain tp where
    s2: "s2 = s1\<lparr>now_reads := Suc (now_reads s1), mint_attempts := mint_attempts s1 @ [a], token_posts := tp\<rparr>"
    by blast
  let ?s3 = "rotateServiceAccount (s2\<lparr>console := console s2 @ [Error_rotating (accountKey a)]\<rparr>)"
  have "accountsLoaded ?s3 = accountsLoaded s" "serviceAccounts ?s3 = serviceAccounts s"
    "cachedTokens ?s3 = cachedTokens s" "mint_attempts ?s3 = mint_attempts s @ [a]"
    "currentServiceAccountIndex ?s3 =
             (if length (serviceAccounts s) > 1
              then (currentServiceAccountIndex s + 1) mod length (serviceAccounts s)
              else currentServiceAccountIndex s)"
    by (simp_all add: rotateServiceAccount_def s2 s1)
  with cl r f x show ?thesis by blast
qed

lemma no_valid_token_cong:
  "serviceAccounts s' = serviceAccounts s \<Longrightarrow> cachedTokens s' = cachedTokens s \<Longrightarrow>
   no_valid_token w s' = no_valid_token w s"
  by (simp add: no_valid_token_def)

lemma getAccessToken_all_fail_no_result:
  assumes "getAccessToken w s = Some y"
  shows "\<not> all_fail_state w s"
  using assms
proof (rule getAccessToken.raw_induct [where P = "\<lambda>w s y. \<not> all_fail_state w s", rotated],
    goal_cases)
  case (1 f w s y)
  note IH = "1"(1) and body = "1"(2)
  show "\<not> all_fail_state w s"
  proof
    assume inv: "all_fail_state w s"
    then have ne: "serviceAccounts s \<noteq> []" and ld: "accountsLoaded s"
      by (auto simp: all_fail_state_def)
    let ?a = "serviceAccounts s ! (currentServiceAccountIndex s mod length (serviceAccounts s))"
    from ne have mem: "?a \<in> set (serviceAccounts s)" by simp
    with inv have nv: "\<forall>c. cachedTokens s (accountKey ?a) = Some c \<longrightarrow> (\<forall>k. expiresAt c \<le> clock w k + 60000)"
      and mf: "mint_fails w ?a"
      by (auto simp: no_valid_token_def all_fail_state_def)
    from failed_attempt [OF nv mf] obtain s1 e s2 s3 where
      cl: "cache_lookup w s (accountKey ?a) = (None, s1)"
      and f: "fetchServiceAccountToken w s1 ?a = (Inl e, s2)"
      and s3: "s3 = rotateServiceAccount (s2\<lparr>console := console s2 @ [Error_rotating (accountKey ?a)]\<rparr>)"
      and fr: "accountsLoaded s3 = accountsLoaded s" "serviceAccounts s3 = serviceAccounts s"
        "cachedTokens s3 = cachedTokens s"
      by blast
    from inv fr have len: "length (serviceAccounts s3) > 1" by (simp add: all_fail_state_def)
    from body have "f w s3 = Some y"
      using cl f s3 [symmetric] len
      by (simp add: loadServiceAccounts_loaded [OF ld] current_account [OF ne] Let_def)
    from IH [OF this] have "\<not> all_fail_state w s3" .
    moreover from inv fr no_valid_token_cong [OF fr(2) fr(3), of w]
    have "all_fail_state w s3" by (simp add: all_fail_state_def)
    ultimately show False by contradiction
  qed
qed

lemma mint_fails_offline:
  assumes "\<And>k request. \<exists>e. token_endpoint w k request = Inl e"
  shows "mint_fails w a"
  unfolding mint_fails_def
proof
  fix s
  show "isl (fst (fetchServiceAccountToken w s a))"
  proof (cases "generateServiceAccountAssertion (subtle_sign w) (clock w (now_reads s)) a")
    case (Inl e)
    then show ?thesis by (simp add: fetchServiceAccountToken_def Date_now_def)
  next
    case (Inr jwt)
    obtain e where "token_endpoint w (length (token_posts s)) (Jwt_bearer jwt) = Inl e"
      using assms by blast
    with Inr show ?thesis
      by (simp add: fetchServiceAccountToken_def Date_now_def exchange_def Let_def)
  qed
qed

lemma mint_fails_world_offline: "mint_fails world_offline a"
  by (rule mint_fails_offline) (simp add: world_offline_def)

lemma no_valid_token_loaded_with: "no_valid_token w (loaded_with accounts)"
  by (simp add: no_valid_token_def loaded_with_def DriveClient_def)

text \<open>
  C1, as the claim states it, fails for two records whose mints all fail: the call does not
  fail after two mint attempts, it never returns. Each failed mint rotates the cursor and
  calls \<open>getAccessToken\<close> again, and nothing counts the attempts.
\<close>

theorem C1_two_accounts_counterexample:
  "getAccessToken world_offline (loaded_with [ex_account, ex_account_b]) = None"
proof (cases "getAccessToken world_offline (loaded_with [ex_account, ex_account_b])")
  case None
  then show ?thesis .
next
  case (Some y)
  from getAccessToken_all_fail_no_result [OF this]
  show ?thesis
    by (simp add: all_fail_state_def mint_fails_world_offline no_valid_token_loaded_with)
       (simp add: loaded_with_def)
qed

text \<open>
  C1, amended. For a resolved Credential Set in which every mint attempt fails and no cached
  token is valid: with one record, \<open>getAccessToken\<close> fails after exactly one mint
  attempt and surfaces that mint's failure; with two or more records the retry has no
  bound of its own, and the call never returns.
\<close>

theorem C1_all_fail:
  assumes "accountsLoaded s" and "serviceAccounts s \<noteq> []"
    and "\<forall>a \<in> set (serviceAccounts s). mint_fails w a" and "no_valid_token w s"
  shows "(length (serviceAccounts s) = 1 \<longrightarrow>
            (\<exists>e s' s1. getAccessToken w s = Some (Inl e, s')
               \<and> mint_attempts s' = mint_attempts s @ [hd (serviceAccounts s)]
               \<and> fst (fetchServiceAccountToken w s1 (hd (serviceAccounts s))) = Inl e))
       \<and> (2 \<le> length (serviceAccounts s) \<longrightarrow> getAccessToken w s = None)"
proof (intro conjI impI)
  assume one: "length (serviceAccounts s) = 1"
  let ?a = "serviceAccounts s ! (currentServiceAccountIndex s mod length (serviceAccounts s))"
  from one have a: "?a = hd (serviceAccounts s)"
    by (cases "serviceAccounts s") simp_all
  from assms(2) have mem: "?a \<in> set (serviceAccounts s)" by simp
  have nv: "\<forall>c. cachedTokens s (accountKey ?a) = Some c \<longrightarrow> (\<forall>k. expiresAt c \<le> clock w k + 60000)"
    and mf: "mint_fails w ?a"
    using assms(3,4) mem unfolding no_valid_token_def by blast+
  from failed_attempt [OF nv mf] obtain s1 e s2 s3 where
    cl: "cache_lookup w s (accountKey ?a) = (None, s1)"
    and f: "fetchServiceAccountToken w s1 ?a = (Inl e, s2)"
    and s3: "s3 = rotateServiceAccount (s2\<lparr>console := console s2 @ [Error_rotating (accountKey ?a)]\<rparr>)"
    and fr: "serviceAccounts s3 = serviceAccounts s" "mint_attempts s3 = mint_attempts s @ [?a]"
    by blast
  from one fr have len: "\<not> length (serviceAccounts s3) > 1" by simp
  have "getAccessToken w s = Some (Inl e, s3)"
    using cl f s3 [symmetric] len
    by (simp add: getAccessToken_loaded [OF assms(1) current_account [OF assms(2)]] Let_def)
  moreover from f have "fst (fetchServiceAccountToken w s1 (hd (serviceAccounts s))) = Inl e"
    by (simp add: a)
  ultimately show "\<exists>e s' s1. getAccessToken w s = Some (Inl e, s')
               \<and> mint_attempts s' = mint_attempts s @ [hd (serviceAccounts s)]
               \<and> fst (fetchServiceAccountToken w s1 (hd (serviceAccounts s))) = Inl e"
    using fr a by auto
next
  assume two: "2 \<le> length (serviceAccounts s)"
  show "getAccessToken w s = None"
  proof (cases "getAccessToken w s")
    case None
    then show ?thesis .
  next
    case (Some y)
    from getAccessToken_all_fail_no_result [OF this] assms two
    show ?thesis by (simp add: all_fail_state_def)
  qed
qed

theorem C1_all_fail_witness:
  "accountsLoaded (loaded_with [ex_account]) \<and> serviceAccounts (loaded_with [ex_account]) \<noteq> []
   \<and> mint_fails world_offline ex_account \<and> mint_fails world_offline ex_account_b
   \<and> no_valid_token world_offline (loaded_with [ex_account])
   \<and> length (serviceAccounts (loaded_with [ex_account])) = 1
   \<and> (\<exists>e s'. getAccessToken world_offline (loaded_with [ex_account]) = Some (Inl e, s')
         \<and> mint_attempts s' = [ex_account])
   \<and> 2 \<le> length (serviceAccounts (loaded_with [ex_account, ex_account_b]))
   \<and> getAccessToken world_offline (loaded_with [ex_account, ex_account_b]) = None"
proof -
  have h1: "accountsLoaded (loaded_with xs)" "serviceAccounts (loaded_with xs) = xs"
    "mint_attempts (loaded_with xs) = []" for xs
    by (simp_all add: loaded_with_def DriveClient_def)
  have h3: "\<forall>a \<in> set (serviceAccounts (loaded_with xs)). mint_fails world_offline a" for xs
    by (simp add: mint_fails_world_offline)
  from C1_all_fail [OF h1(1) _ h3 no_valid_token_loaded_with, of "[ex_account]"]
    C1_all_fail [OF h1(1) _ h3 no_valid_token_loaded_with, of "[ex_account, ex_account_b]"]
  show ?thesis
    using mint_fails_world_offline [of ex_account] mint_fails_world_offline [of ex_account_b]
      no_valid_token_loaded_with [of world_offline "[ex_account]"]
    by (simp add: h1) blast
qed

lemma generateServiceAccountAssertion_total:
  assumes "case client_email a of None \<Rightarrow> True | Some e \<Rightarrow> list_all (\<lambda>c. c \<le> 0xFF) e"
    and "private_key a = Some pem" and "\<forall>input. \<exists>bytes. sg_fn pem input = Inr bytes"
  shows "\<exists>jwt. generateServiceAccountAssertion sg_fn now a = Inr jwt"
proof -
  obtain h where h: "base64UrlEncode (JSON_stringify jwt_header) = Inr h"
    using base64UrlEncode_total [OF latin_header] by blast
  obtain p where p: "base64UrlEncode (JSON_stringify (jwt_payload a now)) = Inr p"
    using base64UrlEncode_total [OF latin_payload, OF assms(1), of now] by blast
  from assms(3) obtain bytes where "sg_fn pem (h @ js ''.'' @ p) = Inr bytes" by blast
  moreover obtain b where "arrayBufferToBase64 bytes = Inr b"
    using arrayBufferToBase64_total by blast
  ultimately have "sign sg_fn (h @ js ''.'' @ p) (private_key a) = Inr (strip_padding (urlsafe b))"
    using assms(2) by (simp add: sign_def)
  with h p show ?thesis
    by (simp add: generateServiceAccountAssertion_def)
qed

lemma generateServiceAccountAssertion_rejected:
  assumes "private_key a = Some pem" and "\<forall>input. isl (sg_fn pem input)"
  shows "isl (generateServiceAccountAssertion sg_fn now a)"
proof -
  have rej: "\<exists>e. sign sg_fn input (private_key a) = Inl e" for input
    using assms(2) [rule_format, of input] assms(1)
    by (cases "sg_fn pem input") (simp_all add: sign_def)
  show ?thesis
  proof (cases "base64UrlEncode (JSON_stringify jwt_header)")
    case (Inl e)
    then show ?thesis by (simp add: generateServiceAccountAssertion_def)
  next
    case h: (Inr h)
    show ?thesis
    proof (cases "base64UrlEncode (JSON_stringify (jwt_payload a now))")
      case (Inl e)
      with h show ?thesis by (simp add: generateServiceAccountAssertion_def)
    next
      case (Inr p)
      from rej [of "h @ js ''.'' @ p"] obtain e where
        "sign sg_fn (h @ js ''.'' @ p) (private_key a) = Inl e" by blast
      with h Inr show ?thesis by (simp add: generateServiceAccountAssertion_def)
    qed
  qed
qed

lemma mint_succeeds_intro:
  assumes "case client_email a of None \<Rightarrow> True | Some e \<Rightarrow> list_all (\<lambda>c. c \<le> 0xFF) e"
    and "private_key a = Some pem" and "\<forall>input. \<exists>bytes. subtle_sign w pem input = Inr bytes"
    and "\<forall>k request. \<exists>body. token_endpoint w k request = Inr \<lparr>ok = True, json = Some body\<rparr>"
  shows "mint_succeeds w a"
  unfolding mint_succeeds_def
proof
  fix s :: state
  obtain jwt where "generateServiceAccountAssertion (subtle_sign w) (clock w (now_reads s)) a = Inr jwt"
    using generateServiceAccountAssertion_total [where sg_fn = "subtle_sign w", OF assms(1-3)]
    by blast
  moreover obtain body where
    "token_endpoint w (length (token_posts s)) (Jwt_bearer jwt) = Inr \<lparr>ok = True, json = Some body\<rparr>"
    using assms(4) by blast
  ultimately show "\<not> isl (fst (fetchServiceAccountToken w s a))"
    by (simp add: fetchServiceAccountToken_def Date_now_def exchange_def Let_def)
qed

lemma mint_fails_rejected_key:
  assumes "private_key a = Some pem" and "\<forall>input. isl (subtle_sign w pem input)"
  shows "mint_fails w a"
  unfolding mint_fails_def
proof
  fix s :: state
  from generateServiceAccountAssertion_rejected [where sg_fn = "subtle_sign w", OF assms,
      of "clock w (now_reads s)"]
  obtain e where "generateServiceAccountAssertion (subtle_sign w) (clock w (now_reads s)) a = Inl e"
    by (cases "generateServiceAccountAssertion (subtle_sign w) (clock w (now_reads s)) a") auto
  then show "isl (fst (fetchServiceAccountToken w s a))"
    by (simp add: fetchServiceAccountToken_def Date_now_def)
qed

text \<open>One attempt whose mint succeeds: the token is stored and returned.\<close>

lemma successful_attempt:
  assumes ld: "accountsLoaded s" and cur: "getCurrentServiceAccount s = Some a"
    and nv: "\<forall>c. cachedTokens s (accountKey a) = Some c \<longrightarrow> (\<forall>k. expiresAt c \<le> clock w k + 60000)"
    and ms: "mint_succeeds w a"
  shows "\<exists>s1 td s2 s'.
           cache_lookup w s (accountKey a) = (None, s1)
         \<and> fetchServiceAccountToken w s1 a = (Inr td, s2)
         \<and> getAccessToken w s = Some (Inr (access_token td), s')
         \<and> s' = cache_store w s2 (accountKey a) td
         \<and> serviceAccounts s' = serviceAccounts s
         \<and> currentServiceAccountIndex s' = currentServiceAccountIndex s
         \<and> mint_attempts s' = mint_attempts s @ [a]
         \<and> cachedTokens s' (accountKey a) =
             Some \<lparr>token = access_token td,
                   expiresAt = clock w (now_reads s2) + lifetime td * 1000\<rparr>"
proof -
  obtain r s1 where cl: "cache_lookup w s (accountKey a) = (r, s1)" by (cases "cache_lookup w s (accountKey a)")
  with cache_lookup_invalid [OF nv] have r: "r = None" by simp
  from cache_lookup_frame [OF cl] obtain n where s1: "s1 = s\<lparr>now_reads := n\<rparr>" by blast
  obtain x s2 where f: "fetchServiceAccountToken w s1 a = (x, s2)" by (cases "fetchServiceAccountToken w s1 a")
  with ms obtain td where x: "x = Inr td"
    by (cases x) (auto simp: mint_succeeds_def dest: spec [of _ s1])
  from fetchServiceAccountToken_frame [OF f] obtain tp where
    s2: "s2 = s1\<lparr>now_reads := Suc (now_reads s1), mint_attempts := mint_attempts s1 @ [a], token_posts := tp\<rparr>"
    by blast
  let ?s' = "cache_store w s2 (accountKey a) td"
  have "getAccessToken w s = Some (Inr (access_token td), ?s')"
    using cl r f x by (simp add: getAccessToken_loaded [OF ld cur])
  moreover have "serviceAccounts ?s' = serviceAccounts s"
    "currentServiceAccountIndex ?s' = currentServiceAccountIndex s"
    "mint_attempts ?s' = mint_attempts s @ [a]"
    "cachedTokens ?s' (accountKey a) =
       Some \<lparr>token = access_token td, expiresAt = clock w (now_reads s2) + lifetime td * 1000\<rparr>"
    by (simp_all add: cache_store_def Date_now_def s2 s1)
  ultimately show ?thesis using cl r f x by blast
qed

text \<open>
  C2. For a resolved Credential Set of N >= 2 records of which exactly the one at index j
  fails permanently, with no valid cached token, \<open>getAccessToken\<close> returns the token
  minted for a record at an index other than j, after at most N (in fact at most two) mint
  attempts, of which at most one is for the failing record; when the cursor stood on the
  failing record it ends one further modulo N, otherwise it stays.
\<close>

theorem C2_one_failing_identity:
  assumes ld: "accountsLoaded s" and N: "2 \<le> length (serviceAccounts s)"
    and j: "j < length (serviceAccounts s)"
    and bad: "mint_fails w (serviceAccounts s ! j)"
    and good: "\<forall>i < length (serviceAccounts s). i \<noteq> j \<longrightarrow> mint_succeeds w (serviceAccounts s ! i)"
    and nv: "no_valid_token w s"
  shows "\<exists>tok s' ms i td s1.
           getAccessToken w s = Some (Inr tok, s')
         \<and> mint_attempts s' = mint_attempts s @ ms
         \<and> length ms \<le> length (serviceAccounts s)
         \<and> length (filter (\<lambda>a. a = serviceAccounts s ! j) ms) \<le> 1
         \<and> i < length (serviceAccounts s) \<and> i \<noteq> j
         \<and> last ms = serviceAccounts s ! i
         \<and> fst (fetchServiceAccountToken w s1 (serviceAccounts s ! i)) = Inr td
         \<and> tok = access_token td
         \<and> currentServiceAccountIndex s' mod length (serviceAccounts s) = i
         \<and> (if currentServiceAccountIndex s mod length (serviceAccounts s) = j
              then i = (j + 1) mod length (serviceAccounts s)
                   \<and> ms = [serviceAccounts s ! j, serviceAccounts s ! i]
              else i = currentServiceAccountIndex s mod length (serviceAccounts s)
                   \<and> ms = [serviceAccounts s ! i])"
proof -
  let ?n = "length (serviceAccounts s)"
  let ?cur = "currentServiceAccountIndex s mod ?n"
  from N have ne: "serviceAccounts s \<noteq> []" and pos: "0 < ?n" by auto
  have cur_lt: "?cur < ?n" using pos by simp
  have invalid: "\<forall>c. cachedTokens s (accountKey (serviceAccounts s ! i)) = Some c
      \<longrightarrow> (\<forall>k. expiresAt c \<le> clock w k + 60000)" if "i < ?n" for i
    using nv that unfolding no_valid_token_def by (meson nth_mem)
  have differ: "serviceAccounts s ! i \<noteq> serviceAccounts s ! j" if "i < ?n" "i \<noteq> j" for i
  proof
    assume "serviceAccounts s ! i = serviceAccounts s ! j"
    with good that bad show False
      by (auto simp: mint_fails_def mint_succeeds_def)
  qed
  show ?thesis
  proof (cases "?cur = j")
    case False
    with good cur_lt have ms: "mint_succeeds w (serviceAccounts s ! ?cur)" by blast
    from successful_attempt [OF ld current_account [OF ne] invalid [OF cur_lt] ms]
    obtain s1 td s2 s' where
      f: "fetchServiceAccountToken w s1 (serviceAccounts s ! ?cur) = (Inr td, s2)"
      and g: "getAccessToken w s = Some (Inr (access_token td), s')"
      and fr: "currentServiceAccountIndex s' = currentServiceAccountIndex s"
        "mint_attempts s' = mint_attempts s @ [serviceAccounts s ! ?cur]"
      by blast
    from f have "fst (fetchServiceAccountToken w s1 (serviceAccounts s ! ?cur)) = Inr td" by simp
    with g fr False cur_lt N differ [OF cur_lt False] show ?thesis
      by (intro exI [of _ "access_token td"] exI [of _ s'] exI [of _ "[serviceAccounts s ! ?cur]"]
          exI [of _ ?cur] exI [of _ td] exI [of _ s1]) simp
  next
    case True
    let ?a = "serviceAccounts s ! ?cur"
    from True bad have mf: "mint_fails w ?a" by simp
    from failed_attempt [OF invalid [OF cur_lt] mf] obtain s1 e s2 s3 where
      cl: "cache_lookup w s (accountKey ?a) = (None, s1)"
      and f: "fetchServiceAccountToken w s1 ?a = (Inl e, s2)"
      and s3: "s3 = rotateServiceAccount (s2\<lparr>console := console s2 @ [Error_rotating (accountKey ?a)]\<rparr>)"
      and fr: "accountsLoaded s3 = accountsLoaded s" "serviceAccounts s3 = serviceAccounts s"
        "cachedTokens s3 = cachedTokens s" "mint_attempts s3 = mint_attempts s @ [?a]"
        "currentServiceAccountIndex s3 =
           (if ?n > 1 then (currentServiceAccountIndex s + 1) mod ?n else currentServiceAccountIndex s)"
      by blast
    from N fr have len: "length (serviceAccounts s3) > 1" by simp
    have retry: "getAccessToken w s = getAccessToken w s3"
      using cl f s3 [symmetric] len
      by (simp add: getAccessToken_loaded [OF ld current_account [OF ne]] Let_def)
    let ?i = "(j + 1) mod ?n"
    from N fr have idx3: "currentServiceAccountIndex s3 = (currentServiceAccountIndex s + 1) mod ?n"
      by simp
    have "(currentServiceAccountIndex s + 1) mod ?n = (?cur + 1) mod ?n"
      by (simp add: mod_Suc_eq)
    with True idx3 have idx3': "currentServiceAccountIndex s3 = ?i" by simp
    have i_lt: "?i < ?n" using pos by simp
    have i_ne: "?i \<noteq> j"
    proof (cases "Suc j < ?n")
      case True
      then show ?thesis by simp
    next
      case False
      with j have "Suc j = ?n" by simp
      with N show ?thesis by simp
    qed
    from good i_lt i_ne have ms: "mint_succeeds w (serviceAccounts s ! ?i)" by blast
    have ne3: "serviceAccounts s3 \<noteq> []" using ne fr by simp
    have cur3: "getCurrentServiceAccount s3 = Some (serviceAccounts s ! ?i)"
      using current_account [OF ne3] by (simp add: fr(2) idx3')
    have inv3: "\<forall>c. cachedTokens s3 (accountKey (serviceAccounts s ! ?i)) = Some c
      \<longrightarrow> (\<forall>k. expiresAt c \<le> clock w k + 60000)"
      using invalid [OF i_lt] by (simp add: fr(3))
    have ld3: "accountsLoaded s3" using ld fr by simp
    from successful_attempt [OF ld3 cur3 inv3 ms]
    obtain t1 td t2 s' where
      f2: "fetchServiceAccountToken w t1 (serviceAccounts s ! ?i) = (Inr td, t2)"
      and g: "getAccessToken w s3 = Some (Inr (access_token td), s')"
      and fr2: "currentServiceAccountIndex s' = currentServiceAccountIndex s3"
        "mint_attempts s' = mint_attempts s3 @ [serviceAccounts s ! ?i]"
      by blast
    from f2 have "fst (fetchServiceAccountToken w t1 (serviceAccounts s ! ?i)) = Inr td" by simp
    with g fr(4) fr2 True i_lt i_ne N retry idx3' differ [OF i_lt i_ne] show ?thesis
      by (intro exI [of _ "access_token td"] exI [of _ s']
          exI [of _ "[serviceAccounts s ! j, serviceAccounts s ! ?i]"]
          exI [of _ ?i] exI [of _ td] exI [of _ t1]) simp
  qed
qed

lemma loaded_with_simps:
  "accountsLoaded (loaded_with xs)" "serviceAccounts (loaded_with xs) = xs"
  "mint_attempts (loaded_with xs) = []" "currentServiceAccountIndex (loaded_with xs) = 0"
  "cachedTokens (loaded_with xs) = Map.empty"
  by (simp_all add: loaded_with_def DriveClient_def)

lemma world_one_revoked_mints:
  "mint_fails world_one_revoked ex_account_revoked"
  "mint_succeeds world_one_revoked ex_account"
  "mint_succeeds world_one_revoked ex_account_b"
proof -
  show "mint_fails world_one_revoked ex_account_revoked"
    by (rule mint_fails_rejected_key [where pem = "js ''REVOKED''"])
       (simp_all add: ex_account_revoked_def world_one_revoked_def)
  have key: "js ''PEM'' \<noteq> js ''REVOKED''" by (simp add: js_def)
  show "mint_succeeds world_one_revoked ex_account"
    by (rule mint_succeeds_intro [where pem = "js ''PEM''"])
       (simp_all add: ex_account_def world_one_revoked_def latin_js key)
  show "mint_succeeds world_one_revoked ex_account_b"
    by (rule mint_succeeds_intro [where pem = "js ''PEM''"])
       (simp_all add: ex_account_b_def world_one_revoked_def latin_js key)
qed

lemma world_one_revoked_token:
  assumes "fst (fetchServiceAccountToken world_one_revoked s a) = Inr td"
  shows "access_token td = js ''ya29.token''"
  using assms
  by (auto simp: fetchServiceAccountToken_def Date_now_def exchange_def Let_def world_one_revoked_def
      split: sum.splits)

theorem C2_one_failing_identity_witness:
  "mint_fails world_one_revoked ex_account_revoked
   \<and> mint_succeeds world_one_revoked ex_account
   \<and> mint_succeeds world_one_revoked ex_account_b
   \<and> no_valid_token world_one_revoked (loaded_with [ex_account_revoked, ex_account, ex_account_b])
   \<and> (\<exists>s'. getAccessToken world_one_revoked
               (loaded_with [ex_account_revoked, ex_account, ex_account_b])
             = Some (Inr (js ''ya29.token''), s')
          \<and> mint_attempts s' = [ex_account_revoked, ex_account]
          \<and> currentServiceAccountIndex s' mod 3 = 1)"
proof -
  let ?s = "loaded_with [ex_account_revoked, ex_account, ex_account_b]"
  have good: "\<forall>i < length (serviceAccounts ?s). i \<noteq> 0 \<longrightarrow> mint_succeeds world_one_revoked (serviceAccounts ?s ! i)"
    by (simp add: loaded_with_simps less_Suc_eq world_one_revoked_mints)
  have bad: "mint_fails world_one_revoked (serviceAccounts ?s ! 0)"
    by (simp add: loaded_with_simps world_one_revoked_mints)
  from C2_one_failing_identity [of ?s 0 world_one_revoked, OF _ _ _ bad good no_valid_token_loaded_with]
  obtain tok s' ms i td s1 where
    "getAccessToken world_one_revoked ?s = Some (Inr tok, s')"
    "mint_attempts s' = ms" "i = 1" "ms = [ex_account_revoked, ex_account]"
    "fst (fetchServiceAccountToken world_one_revoked s1 ex_account) = Inr td"
    "tok = access_token td" "currentServiceAccountIndex s' mod 3 = i"
    by (auto simp: loaded_with_simps)
  with world_one_revoked_token [of s1 ex_account td] world_one_revoked_mints
    no_valid_token_loaded_with [of world_one_revoked]
  show ?thesis by auto
qed

lemma load_from_environment_mints:
  "mint_attempts (load_from_environment w s) = mint_attempts s"
  by (simp add: load_from_environment_def Let_def split: prod.splits option.splits)

lemma load_from_url_mints: "mint_attempts (load_from_url w s) = mint_attempts s"
  by (simp add: load_from_url_def Let_def load_from_environment_mints
      split: sum.splits option.splits accounts_doc.splits)

lemma loadServiceAccounts_mints: "mint_attempts (loadServiceAccounts w s) = mint_attempts s"
  by (simp add: loadServiceAccounts_def Let_def load_from_url_mints
      split: option.splits accounts_doc.splits)

lemma cache_lookup_mints:
  "cache_lookup w s key = (r, s') \<Longrightarrow> mint_attempts s' = mint_attempts s"
  by (drule cache_lookup_frame) auto

lemma cache_store_mints: "mint_attempts (cache_store w s key td) = mint_attempts s"
  by (simp add: cache_store_def Date_now_def)

lemma exchange_mints: "exchange w s req msg = (r, s') \<Longrightarrow> mint_attempts s' = mint_attempts s"
  by (drule exchange_frame) auto

lemma oauth_access_token_mints:
  "oauth_access_token w s = (r, s') \<Longrightarrow> mint_attempts s' = mint_attempts s"
proof -
  assume o: "oauth_access_token w s = (r, s')"
  show ?thesis
  proof (cases "\<not> truthy (clientId s) \<or> \<not> truthy (clientSecret s) \<or> \<not> truthy (refreshToken s)")
    case True
    with o show ?thesis by (auto simp: oauth_access_token_def)
  next
    case False
    obtain c s1 where cl: "cache_lookup w s (js ''oauth'') = (c, s1)"
      by (cases "cache_lookup w s (js ''oauth'')")
    note m1 = cache_lookup_mints [OF cl]
    show ?thesis
    proof (cases c)
      case (Some tok)
      with o False cl m1 show ?thesis by (auto simp: oauth_access_token_def)
    next
      case None
      obtain x s2 where rf: "refreshUserToken w s1 = (x, s2)" by (cases "refreshUserToken w s1")
      then have m2: "mint_attempts s2 = mint_attempts s1"
        by (auto simp: refreshUserToken_def split: if_splits dest: exchange_mints)
      from o False cl None rf m1 m2 show ?thesis
        by (cases x) (auto simp: oauth_access_token_def cache_store_mints)
    qed
  qed
qed

lemma fetchServiceAccountToken_mints:
  "fetchServiceAccountToken w s a = (r, s') \<Longrightarrow> mint_attempts s' = mint_attempts s @ [a]"
  by (drule fetchServiceAccountToken_frame) auto

lemma rotateServiceAccount_mints: "mint_attempts (rotateServiceAccount s) = mint_attempts s"
  by (simp add: rotateServiceAccount_def)

lemma getAccessToken_mints_grow:
  assumes "getAccessToken w s = Some y"
  shows "length (mint_attempts s) \<le> length (mint_attempts (snd y))"
  using assms
proof (rule getAccessToken.raw_induct
    [where P = "\<lambda>w s y. length (mint_attempts s) \<le> length (mint_attempts (snd y))", rotated],
    goal_cases)
  case (1 f w s y)
  note IH = "1"(1) and body = "1"(2)
  let ?s = "loadServiceAccounts w s"
  show ?case
  proof (cases "getCurrentServiceAccount ?s")
    case None
    with body have "oauth_access_token w ?s = y" by (simp add: Let_def)
    then have "oauth_access_token w ?s = (fst y, snd y)" by simp
    from oauth_access_token_mints [OF this] show ?thesis
      by (simp add: loadServiceAccounts_mints)
  next
    case (Some a)
    obtain r s1 where cl: "cache_lookup w ?s (accountKey a) = (r, s1)"
      by (cases "cache_lookup w ?s (accountKey a)")
    note m1 = cache_lookup_mints [OF cl]
    show ?thesis
    proof (cases r)
      case (Some tok)
      with body \<open>getCurrentServiceAccount ?s = Some a\<close> cl have "y = (Inr tok, s1)"
        by (simp add: Let_def)
      with m1 show ?thesis by (simp add: loadServiceAccounts_mints)
    next
      case None
      obtain x s2 where f: "fetchServiceAccountToken w s1 a = (x, s2)"
        by (cases "fetchServiceAccountToken w s1 a")
      note m2 = fetchServiceAccountToken_mints [OF f]
      show ?thesis
      proof (cases x)
        case (Inr td)
        with body \<open>getCurrentServiceAccount ?s = Some a\<close> cl None f
        have "y = (Inr (access_token td), cache_store w s2 (accountKey a) td)"
          by (simp add: Let_def)
        with m1 m2 show ?thesis by (simp add: loadServiceAccounts_mints cache_store_mints)
      next
        case (Inl e)
        let ?s3 = "rotateServiceAccount (s2\<lparr>console := console s2 @ [Error_rotating (accountKey a)]\<rparr>)"
        have m3: "mint_attempts ?s3 = mint_attempts s @ [a]"
          using m1 m2 by (simp add: rotateServiceAccount_mints loadServiceAccounts_mints)
        show ?thesis
        proof (cases "length (serviceAccounts ?s3) > 1")
          case True
          with body \<open>getCurrentServiceAccount ?s = Some a\<close> cl None f Inl
          have "f w ?s3 = Some y" by (simp add: Let_def)
          from IH [OF this] m3 show ?thesis by simp
        next
          case False
          with body \<open>getCurrentServiceAccount ?s = Some a\<close> cl None f Inl
          have "y = (Inl e, ?s3)" by (simp add: Let_def)
          with m3 show ?thesis by simp
        qed
      qed
    qed
  qed
qed

lemma stale_cache_mints:
  assumes ld: "accountsLoaded s" and cur: "getCurrentServiceAccount s = Some a"
    and stale: "fst (cache_lookup w s (accountKey a)) = None"
    and res: "getAccessToken w s = Some (r, s')"
  shows "length (mint_attempts s) < length (mint_attempts s')"
proof -
  obtain s1 where cl: "cache_lookup w s (accountKey a) = (None, s1)"
    using stale by (cases "cache_lookup w s (accountKey a)") auto
  note m1 = cache_lookup_mints [OF cl]
  obtain x s2 where f: "fetchServiceAccountToken w s1 a = (x, s2)"
    by (cases "fetchServiceAccountToken w s1 a")
  note m2 = fetchServiceAccountToken_mints [OF f]
  show ?thesis
  proof (cases x)
    case (Inr td)
    with res cl f have "s' = cache_store w s2 (accountKey a) td"
      by (simp add: getAccessToken_loaded [OF ld cur])
    with m1 m2 show ?thesis by (simp add: cache_store_mints)
  next
    case (Inl e)
    let ?s3 = "rotateServiceAccount (s2\<lparr>console := console s2 @ [Error_rotating (accountKey a)]\<rparr>)"
    have m3: "mint_attempts ?s3 = mint_attempts s @ [a]"
      using m1 m2 by (simp add: rotateServiceAccount_mints)
    show ?thesis
    proof (cases "length (serviceAccounts ?s3) > 1")
      case True
      with res cl f Inl have "getAccessToken w ?s3 = Some (r, s')"
        by (simp add: getAccessToken_loaded [OF ld cur] Let_def)
      from getAccessToken_mints_grow [OF this] m3 show ?thesis by simp
    next
      case False
      with res cl f Inl have "s' = ?s3"
        by (simp add: getAccessToken_loaded [OF ld cur] Let_def)
      with m3 show ?thesis by simp
    qed
  qed
qed

lemma cache_lookup_entry:
  "cachedTokens s key = Some c \<Longrightarrow>
   cache_lookup w s key =
     (if clock w (now_reads s) + 60000 < expiresAt c then Some (token c) else None,
      s\<lparr>now_reads := Suc (now_reads s)\<rparr>)"
  by (simp add: cache_lookup_def Date_now_def)

lemma served_iff_valid:
  assumes ld: "accountsLoaded s" and cur: "getCurrentServiceAccount s = Some a"
    and c: "cachedTokens s (accountKey a) = Some c"
  shows "(\<exists>s'. getAccessToken w s = Some (Inr (token c), s') \<and> mint_attempts s' = mint_attempts s)
           \<longleftrightarrow> clock w (now_reads s) + 60000 < expiresAt c"
    and "clock w (now_reads s) + 60000 < expiresAt c \<Longrightarrow>
           getAccessToken w s = Some (Inr (token c), s\<lparr>now_reads := Suc (now_reads s)\<rparr>)"
proof -
  show served: "getAccessToken w s = Some (Inr (token c), s\<lparr>now_reads := Suc (now_reads s)\<rparr>)"
    if "clock w (now_reads s) + 60000 < expiresAt c"
    using that by (simp add: getAccessToken_loaded [OF ld cur] cache_lookup_entry [OF c])
  show "(\<exists>s'. getAccessToken w s = Some (Inr (token c), s') \<and> mint_attempts s' = mint_attempts s)
           \<longleftrightarrow> clock w (now_reads s) + 60000 < expiresAt c"
  proof
    assume "clock w (now_reads s) + 60000 < expiresAt c"
    from served [OF this] show "\<exists>s'. getAccessToken w s = Some (Inr (token c), s')
        \<and> mint_attempts s' = mint_attempts s"
      by simp
  next
    assume "\<exists>s'. getAccessToken w s = Some (Inr (token c), s') \<and> mint_attempts s' = mint_attempts s"
    then obtain s' where g: "getAccessToken w s = Some (Inr (token c), s')"
      and m: "mint_attempts s' = mint_attempts s" by blast
    show "clock w (now_reads s) + 60000 < expiresAt c"
    proof (rule ccontr)
      assume "\<not> clock w (now_reads s) + 60000 < expiresAt c"
      then have "fst (cache_lookup w s (accountKey a)) = None"
        by (simp add: cache_lookup_entry [OF c])
      from stale_cache_mints [OF ld cur this g] m show False by simp
    qed
  qed
qed

text \<open>
  C3, amended. A token minted for the record under the cursor is stored with
  \<open>expiresAt = T + L * 1000\<close>, where \<open>T\<close> is the value of \<open>Date.now()\<close> at the
  store and \<open>L\<close> is the \<open>expires_in\<close> of the response, or 3600 when the response
  omits it or carries 0. A cached token is served without a mint exactly when
  \<open>now + 60000 < expiresAt\<close>: it is served at \<open>T + (L - 61)\<close> seconds, and at
  \<open>T + (L - 59)\<close> seconds it is not.
\<close>

theorem C3_expiry_and_validity:
  assumes ld: "accountsLoaded s" and cur: "getCurrentServiceAccount s = Some a"
  shows
   "(cache_lookup w s (accountKey a) = (None, s1) \<and> fetchServiceAccountToken w s1 a = (Inr td, s2)
       \<longrightarrow> getAccessToken w s = Some (Inr (access_token td), cache_store w s2 (accountKey a) td)
          \<and> cachedTokens (cache_store w s2 (accountKey a) td) (accountKey a)
             = Some \<lparr>token = access_token td,
                     expiresAt = clock w (now_reads s2) +
                       (case expires_in td of None \<Rightarrow> 3600 | Some l \<Rightarrow> if l = 0 then 3600 else l) * 1000\<rparr>)
    \<and> (cachedTokens s (accountKey a) = Some c
       \<longrightarrow> ((\<exists>s'. getAccessToken w s = Some (Inr (token c), s') \<and> mint_attempts s' = mint_attempts s)
             \<longleftrightarrow> clock w (now_reads s) + 60000 < expiresAt c)
          \<and> (clock w (now_reads s) + 60000 < expiresAt c
               \<longrightarrow> getAccessToken w s = Some (Inr (token c), s\<lparr>now_reads := Suc (now_reads s)\<rparr>))
          \<and> (expiresAt c = T + L * 1000 \<and> clock w (now_reads s) = T + (L - 61) * 1000
               \<longrightarrow> getAccessToken w s = Some (Inr (token c), s\<lparr>now_reads := Suc (now_reads s)\<rparr>))
          \<and> (expiresAt c = T + L * 1000 \<and> clock w (now_reads s) = T + (L - 59) * 1000
               \<longrightarrow> \<not> (\<exists>s'. getAccessToken w s = Some (Inr (token c), s')
                        \<and> mint_attempts s' = mint_attempts s)))"
proof (intro conjI impI)
  assume a: "cache_lookup w s (accountKey a) = (None, s1) \<and> fetchServiceAccountToken w s1 a = (Inr td, s2)"
  then show "getAccessToken w s = Some (Inr (access_token td), cache_store w s2 (accountKey a) td)"
    by (simp add: getAccessToken_loaded [OF ld cur])
  show "cachedTokens (cache_store w s2 (accountKey a) td) (accountKey a)
             = Some \<lparr>token = access_token td,
                     expiresAt = clock w (now_reads s2) +
                       (case expires_in td of None \<Rightarrow> 3600 | Some l \<Rightarrow> if l = 0 then 3600 else l) * 1000\<rparr>"
    by (simp add: cache_store_def Date_now_def lifetime_def)
next
  assume c: "cachedTokens s (accountKey a) = Some c"
  note iff = served_iff_valid(1) [OF ld cur c, of w] and served = served_iff_valid(2) [OF ld cur c, of w]
  show "(\<exists>s'. getAccessToken w s = Some (Inr (token c), s') \<and> mint_attempts s' = mint_attempts s)
             \<longleftrightarrow> clock w (now_reads s) + 60000 < expiresAt c"
    by (rule iff)
  show "getAccessToken w s = Some (Inr (token c), s\<lparr>now_reads := Suc (now_reads s)\<rparr>)"
    if "clock w (now_reads s) + 60000 < expiresAt c"
    using that by (rule served)
  show "getAccessToken w s = Some (Inr (token c), s\<lparr>now_reads := Suc (now_reads s)\<rparr>)"
    if "expiresAt c = T + L * 1000 \<and> clock w (now_reads s) = T + (L - 61) * 1000"
    using that by (intro served) (simp add: algebra_simps)
  show "\<not> (\<exists>s'. getAccessToken w s = Some (Inr (token c), s') \<and> mint_attempts s' = mint_attempts s)"
    if "expiresAt c = T + L * 1000 \<and> clock w (now_reads s) = T + (L - 59) * 1000"
    using that unfolding iff by (simp add: algebra_simps)
qed

lemma ex_keys: "js ''PEM'' \<noteq> js ''REVOKED''" "accountKey ex_account = js ''cdn@drive.iam''"
  by (simp_all add: js_def accountKey_def ex_account_def truthy_def str_def)

lemma current_loaded_with: "getCurrentServiceAccount (loaded_with [a]) = Some a"
  by (simp add: getCurrentServiceAccount_def loaded_with_simps)

lemma world_zero_lifetime_mint: "mint_succeeds world_zero_lifetime ex_account"
  by (rule mint_succeeds_intro [where pem = "js ''PEM''"])
     (simp_all add: ex_account_def world_zero_lifetime_def world_one_revoked_def latin_js ex_keys)

lemma world_zero_lifetime_body:
  assumes "fetchServiceAccountToken world_zero_lifetime s a = (Inr td, s')"
  shows "td = \<lparr>access_token = js ''ya29.token'', expires_in = Some 0, error_description = None\<rparr>"
  using assms
  by (auto simp: fetchServiceAccountToken_def Date_now_def exchange_def Let_def
      world_zero_lifetime_def world_one_revoked_def split: sum.splits)

text \<open>
  C3, as the claim states it, fails for a response that carries \<open>expires_in = 0\<close>: the
  token minted at 1700000000123 is stored with the expiry of 3600 seconds, not of 0.
\<close>

theorem C3_zero_lifetime_counterexample:
  "cached_after world_zero_lifetime (loaded_with [ex_account]) (accountKey ex_account)
     = Some \<lparr>token = js ''ya29.token'', expiresAt = 1700000000123 + 3600 * 1000\<rparr>
   \<and> (1700000000123 :: int) + 3600 * 1000 \<noteq> 1700000000123 + 0 * 1000"
proof -
  let ?s = "loaded_with [ex_account]"
  have nv: "\<forall>c. cachedTokens ?s (accountKey ex_account) = Some c
      \<longrightarrow> (\<forall>k. expiresAt c \<le> clock world_zero_lifetime k + 60000)"
    by (simp add: loaded_with_simps)
  from successful_attempt [OF loaded_with_simps(1) current_loaded_with nv world_zero_lifetime_mint]
  obtain s1 td s2 s' where
    f: "fetchServiceAccountToken world_zero_lifetime s1 ex_account = (Inr td, s2)"
    and g: "getAccessToken world_zero_lifetime ?s = Some (Inr (access_token td), s')"
    and c: "cachedTokens s' (accountKey ex_account) =
             Some \<lparr>token = access_token td,
                   expiresAt = clock world_zero_lifetime (now_reads s2) + lifetime td * 1000\<rparr>"
    by blast
  note td = world_zero_lifetime_body [OF f]
  have "clock world_zero_lifetime (now_reads s2) = 1700000000123"
    by (simp add: world_zero_lifetime_def world_one_revoked_def)
  with g c td show ?thesis
    by (simp add: cached_after_def lifetime_def)
qed

lemma world_one_revoked_sign:
  "sign (subtle_sign world_one_revoked) input (Some (js ''PEM'')) = Inr (js ''3q2-7w'')"
proof -
  have "subtle_sign world_one_revoked (js ''PEM'') input = ex_signer (js ''PEM'') input"
    by (simp add: world_one_revoked_def ex_signer_def ex_keys)
  then have "sign (subtle_sign world_one_revoked) input (Some (js ''PEM''))
      = sign ex_signer input (Some (js ''PEM''))"
    by (simp add: sign_def)
  then show ?thesis by (simp add: ex_sign)
qed

lemma world_one_revoked_jwt:
  "generateServiceAccountAssertion (subtle_sign world_one_revoked) 1700000000123 ex_account
     = Inr ex_jwt"
proof -
  have pk: "private_key ex_account = Some (js ''PEM'')" by (simp add: ex_account_def)
  show ?thesis
    by (simp add: generateServiceAccountAssertion_def ex_header ex_payload world_one_revoked_sign
        pk ex_jwt_def)
qed

lemma world_one_revoked_fetch:
  "fetchServiceAccountToken world_one_revoked (loaded_with [ex_account]) ex_account
     = (Inr \<lparr>access_token = js ''ya29.token'', expires_in = Some 3599, error_description = None\<rparr>,
        (loaded_with [ex_account])
          \<lparr>mint_attempts := [ex_account], now_reads := 1, token_posts := [Jwt_bearer ex_jwt]\<rparr>)"
proof -
  have clk: "clock world_one_revoked k = 1700000000123" for k
    by (simp add: world_one_revoked_def)
  have ep: "token_endpoint world_one_revoked k request =
      Inr \<lparr>ok = True,
           json = Some \<lparr>access_token = js ''ya29.token'', expires_in = Some 3599,
                        error_description = None\<rparr>\<rparr>" for k request
    by (simp add: world_one_revoked_def)
  show ?thesis
    by (simp add: fetchServiceAccountToken_def Date_now_def clk world_one_revoked_jwt
        exchange_def Let_def ep)
       (simp add: loaded_with_def DriveClient_def)
qed

theorem C3_expiry_and_validity_witness:
  "cached_after world_one_revoked (loaded_with [ex_account]) (accountKey ex_account)
     = Some \<lparr>token = js ''ya29.token'', expiresAt = 1700000000123 + 3599 * 1000\<rparr>
   \<and> getAccessToken (world_at (1700000000123 + (3599 - 61) * 1000)) cached_state
       = Some (Inr (js ''ya29.token''), cached_state\<lparr>now_reads := 1\<rparr>)
   \<and> \<not> (\<exists>s'. getAccessToken (world_at (1700000000123 + (3599 - 59) * 1000)) cached_state
                = Some (Inr (js ''ya29.token''), s')
             \<and> mint_attempts s' = [])"
proof -
  let ?s = "loaded_with [ex_account]"
  let ?td = "\<lparr>access_token = js ''ya29.token'', expires_in = Some 3599, error_description = None\<rparr>"
  let ?s2 = "?s\<lparr>mint_attempts := [ex_account], now_reads := 1, token_posts := [Jwt_bearer ex_jwt]\<rparr>"
  let ?c = "\<lparr>token = js ''ya29.token'', expiresAt = 1700000000123 + 3599 * 1000\<rparr>"
  have cl: "cache_lookup world_one_revoked ?s (accountKey ex_account) = (None, ?s)"
    by (simp add: cache_lookup_def loaded_with_simps)
  have clk: "clock world_one_revoked k = 1700000000123" for k
    by (simp add: world_one_revoked_def)
  have first: "cached_after world_one_revoked ?s (accountKey ex_account) = Some ?c"
    using C3_expiry_and_validity [where s = ?s and a = ex_account and w = world_one_revoked
          and ?s1.0 = ?s and td = ?td and ?s2.0 = ?s2,
        OF loaded_with_simps(1) current_loaded_with]
      cl world_one_revoked_fetch
    by (simp add: cached_after_def clk)
  have ld: "accountsLoaded cached_state"
    and cur: "getCurrentServiceAccount cached_state = Some ex_account"
    and c: "cachedTokens cached_state (accountKey ex_account) = Some ?c"
    and nr: "now_reads cached_state = 0" "mint_attempts cached_state = []"
    by (simp_all add: cached_state_def loaded_with_simps getCurrentServiceAccount_def)
       (simp add: loaded_with_def DriveClient_def)
  have at: "clock (world_at t) k = t" for t k
    by (simp add: world_at_def)
  have second: "getAccessToken (world_at (1700000000123 + (3599 - 61) * 1000)) cached_state
       = Some (Inr (js ''ya29.token''), cached_state\<lparr>now_reads := 1\<rparr>)"
    using C3_expiry_and_validity [where w = "world_at (1700000000123 + (3599 - 61) * 1000)"
          and c = ?c and T = 1700000000123 and L = 3599, OF ld cur] c
    by (simp add: at nr)
  have third: "\<not> (\<exists>s'. getAccessToken (world_at (1700000000123 + (3599 - 59) * 1000)) cached_state
                = Some (Inr (js ''ya29.token''), s')
             \<and> mint_attempts s' = [])"
    using C3_expiry_and_validity [where w = "world_at (1700000000123 + (3599 - 59) * 1000)"
          and c = ?c and T = 1700000000123 and L = 3599, OF ld cur] c
    by (simp add: at nr)
  from first second third show ?thesis by blast
qed

text \<open>
  C10. A record without \<open>client_email\<close> has the cache key \<open>default\<close>. With two such
  records, the token minted for the one under the cursor is stored under \<open>default\<close>, and
  whenever the cursor points at the other one and the entry under \<open>default\<close> is valid,
  \<open>getAccessToken\<close> returns that entry's token without a mint.
\<close>

theorem C10_default_key:
  assumes "client_email a = None" and "client_email b = None"
  shows "accountKey a = js ''default'' \<and> accountKey b = js ''default''
    \<and> (accountsLoaded s \<and> getCurrentServiceAccount s = Some a
        \<and> cache_lookup w s (js ''default'') = (None, s1)
        \<and> fetchServiceAccountToken w s1 a = (Inr td, s2)
       \<longrightarrow> getAccessToken w s = Some (Inr (access_token td), cache_store w s2 (js ''default'') td)
          \<and> cachedTokens (cache_store w s2 (js ''default'') td) (js ''default'')
               = Some \<lparr>token = access_token td,
                       expiresAt = clock w (now_reads s2) + lifetime td * 1000\<rparr>)
    \<and> (accountsLoaded t \<and> getCurrentServiceAccount t = Some b
        \<and> cachedTokens t (js ''default'') = Some c
        \<and> clock w (now_reads t) + 60000 < expiresAt c
       \<longrightarrow> getAccessToken w t = Some (Inr (token c), t\<lparr>now_reads := Suc (now_reads t)\<rparr>))"
proof -
  from assms have ka: "accountKey a = js ''default''" and kb: "accountKey b = js ''default''"
    by (simp_all add: accountKey_def truthy_def)
  have first: "getAccessToken w s = Some (Inr (access_token td), cache_store w s2 (js ''default'') td)"
    if "accountsLoaded s \<and> getCurrentServiceAccount s = Some a
        \<and> cache_lookup w s (js ''default'') = (None, s1)
        \<and> fetchServiceAccountToken w s1 a = (Inr td, s2)"
    using that by (simp add: getAccessToken_loaded [of s a] ka)
  have stored: "cachedTokens (cache_store w s2 (js ''default'') td) (js ''default'')
               = Some \<lparr>token = access_token td,
                       expiresAt = clock w (now_reads s2) + lifetime td * 1000\<rparr>"
    by (simp add: cache_store_def Date_now_def)
  have second: "getAccessToken w t = Some (Inr (token c), t\<lparr>now_reads := Suc (now_reads t)\<rparr>)"
    if "accountsLoaded t \<and> getCurrentServiceAccount t = Some b
        \<and> cachedTokens t (js ''default'') = Some c
        \<and> clock w (now_reads t) + 60000 < expiresAt c"
    using that served_iff_valid(2) [of t b c w] by (simp add: kb)
  from ka kb first stored second show ?thesis by blast
qed

lemma world_one_revoked_mint_anon: "mint_succeeds world_one_revoked ex_anon_a"
  by (rule mint_succeeds_intro [where pem = "js ''PEM''"])
     (simp_all add: ex_anon_a_def world_one_revoked_def ex_keys)

theorem C10_default_key_witness:
  "accountKey ex_anon_a = js ''default'' \<and> accountKey ex_anon_b = js ''default''
   \<and> ex_anon_a \<noteq> ex_anon_b
   \<and> (\<exists>tok s'. getAccessToken world_one_revoked (loaded_with [ex_anon_a, ex_anon_b])
                   = Some (Inr tok, s')
          \<and> mint_attempts s' = [ex_anon_a]
          \<and> getCurrentServiceAccount (rotateServiceAccount s') = Some ex_anon_b
          \<and> (\<exists>t'. getAccessToken world_one_revoked (rotateServiceAccount s') = Some (Inr tok, t')
                \<and> mint_attempts t' = [ex_anon_a]))"
proof -
  let ?w = world_one_revoked
  let ?s = "loaded_with [ex_anon_a, ex_anon_b]"
  have e: "client_email ex_anon_a = None" "client_email ex_anon_b = None"
    by (simp_all add: ex_anon_a_def ex_anon_b_def)
  have ne: "ex_anon_a \<noteq> ex_anon_b"
    by (simp add: ex_anon_a_def ex_anon_b_def js_def)
  note inst = C10_default_key [OF e]
  have ld: "accountsLoaded ?s" and cur: "getCurrentServiceAccount ?s = Some ex_anon_a"
    by (simp_all add: loaded_with_simps getCurrentServiceAccount_def)
  have nv: "\<forall>c. cachedTokens ?s (accountKey ex_anon_a) = Some c
      \<longrightarrow> (\<forall>k. expiresAt c \<le> clock ?w k + 60000)"
    by (simp add: loaded_with_simps)
  from successful_attempt [OF ld cur nv world_one_revoked_mint_anon]
  obtain s1 td s2 where
    cl: "cache_lookup ?w ?s (accountKey ex_anon_a) = (None, s1)"
    and f: "fetchServiceAccountToken ?w s1 ex_anon_a = (Inr td, s2)"
    and sa: "serviceAccounts (cache_store ?w s2 (accountKey ex_anon_a) td) = serviceAccounts ?s"
    and ix: "currentServiceAccountIndex (cache_store ?w s2 (accountKey ex_anon_a) td)
               = currentServiceAccountIndex ?s"
    and ma: "mint_attempts (cache_store ?w s2 (accountKey ex_anon_a) td) = mint_attempts ?s @ [ex_anon_a]"
    by blast
  let ?s' = "cache_store ?w s2 (js ''default'') td"
  let ?t = "rotateServiceAccount ?s'"
  from inst [of ?s ?w s1 td s2] ld cur cl f
  have g1: "getAccessToken ?w ?s = Some (Inr (access_token td), ?s')"
    and c1: "cachedTokens ?s' (js ''default'')
               = Some \<lparr>token = access_token td, expiresAt = clock ?w (now_reads s2) + lifetime td * 1000\<rparr>"
    by simp_all
  from sa ix ma inst have fields: "serviceAccounts ?s' = [ex_anon_a, ex_anon_b]"
    "currentServiceAccountIndex ?s' = 0" "mint_attempts ?s' = [ex_anon_a]"
    by (simp_all add: loaded_with_simps)
  have ld': "accountsLoaded ?s'"
    using fetchServiceAccountToken_frame [OF f] cache_lookup_frame [OF cl] ld
    by (auto simp: cache_store_def Date_now_def)
  have t_fields: "accountsLoaded ?t" "getCurrentServiceAccount ?t = Some ex_anon_b"
    "cachedTokens ?t = cachedTokens ?s'" "mint_attempts ?t = [ex_anon_a]"
    using ld' fields by (simp_all add: rotateServiceAccount_def getCurrentServiceAccount_def)
  have td: "lifetime td = 3599"
    using f by (auto simp: fetchServiceAccountToken_def Date_now_def exchange_def Let_def
        world_one_revoked_def lifetime_def split: sum.splits)
  have clk: "clock ?w k = 1700000000123" for k
    by (simp add: world_one_revoked_def)
  from inst [of _ ?w _ _ _ ?t "\<lparr>token = access_token td, expiresAt = clock ?w (now_reads s2) + lifetime td * 1000\<rparr>"]
    t_fields c1
  have g2: "getAccessToken ?w ?t = Some (Inr (access_token td), ?t\<lparr>now_reads := Suc (now_reads ?t)\<rparr>)"
    by (simp add: clk td)
  from inst ne g1 fields t_fields g2 show ?thesis by simp
qed

text \<open>
  C4, as the claim states it, fails for a bundled collection whose \<open>accounts\<close> array is
  empty while the configured URL serves one record: the first source that yields a
  non-empty collection is the URL, but the Credential Set is the empty bundled array and
  the URL is not fetched.
\<close>

theorem C4_empty_bundle_counterexample:
  "bundled_module world_empty_bundle 0 = Some (Accounts [])
   \<and> truthy (SERVICE_ACCOUNTS_URL env_with_url)
   \<and> url_fetch world_empty_bundle 0 (str (SERVICE_ACCOUNTS_URL env_with_url))
       = Inr \<lparr>url_ok = True, url_json = Some (Accounts [ex_account])\<rparr>
   \<and> serviceAccounts (loadServiceAccounts world_empty_bundle (DriveClient env_with_url)) = []
   \<and> accountsLoaded (loadServiceAccounts world_empty_bundle (DriveClient env_with_url))
   \<and> url_fetches (loadServiceAccounts world_empty_bundle (DriveClient env_with_url)) = []"
  by (simp add: world_empty_bundle_def env_with_url_def env_empty_def truthy_def str_def
      loadServiceAccounts_def DriveClient_def Let_def js_def)

text \<open>
  C4, amended. Resolution tries its sources in priority order and the first source that
  yields an \<open>accounts\<close> array, empty or not, is used exclusively. When the bundled
  collection has an \<open>accounts\<close> array, that array becomes the Credential Set, the URL
  is not fetched, and no binding of the environment and no answer of the URL or of
  \<open>JSON.parse\<close> changes the outcome. When it has none and the configured URL answers ok
  with an \<open>accounts\<close> array, that array becomes the Credential Set after one fetch,
  whatever the environment-variable and legacy bindings are.
\<close>

theorem C4_first_accounts_array_wins:
  assumes "\<not> accountsLoaded s"
  shows "(bundled_module w (awaited_import s) = Some (Accounts accounts)
          \<longrightarrow> serviceAccounts (loadServiceAccounts w s) = accounts
             \<and> accountsLoaded (loadServiceAccounts w s)
             \<and> url_fetches (loadServiceAccounts w s) = url_fetches s
             \<and> loadServiceAccounts (w\<lparr>url_fetch := fetch', JSON_parse := parse'\<rparr>) (s\<lparr>env := e'\<rparr>)
                 = (loadServiceAccounts w s)\<lparr>env := e'\<rparr>)
       \<and> ((bundled_module w (awaited_import s) = None
            \<or> bundled_module w (awaited_import s) = Some No_accounts)
          \<and> truthy (SERVICE_ACCOUNTS_URL (env s))
          \<and> url_fetch w (length (url_fetches s)) (str (SERVICE_ACCOUNTS_URL (env s)))
               = Inr \<lparr>url_ok = True, url_json = Some (Accounts accounts)\<rparr>
          \<longrightarrow> serviceAccounts (loadServiceAccounts w s) = accounts
             \<and> accountsLoaded (loadServiceAccounts w s)
             \<and> url_fetches (loadServiceAccounts w s)
                 = url_fetches s @ [str (SERVICE_ACCOUNTS_URL (env s))]
             \<and> loadServiceAccounts (w\<lparr>JSON_parse := parse'\<rparr>)
                  (s\<lparr>env := (env s)\<lparr>GDRIVE_SERVICE_ACCOUNTS := joined',
                                     GDRIVE_SERVICE_ACCOUNT_n := numbered',
                                     GDRIVE_SERVICE_ACCOUNT := legacy'\<rparr>\<rparr>)
                 = (loadServiceAccounts w s)
                     \<lparr>env := (env s)\<lparr>GDRIVE_SERVICE_ACCOUNTS := joined',
                                      GDRIVE_SERVICE_ACCOUNT_n := numbered',
                                      GDRIVE_SERVICE_ACCOUNT := legacy'\<rparr>\<rparr>)"
proof (intro conjI impI)
  assume b: "bundled_module w (awaited_import s) = Some (Accounts accounts)"
  with assms show "serviceAccounts (loadServiceAccounts w s) = accounts"
    "accountsLoaded (loadServiceAccounts w s)"
    "url_fetches (loadServiceAccounts w s) = url_fetches s"
    by (simp_all add: loadServiceAccounts_def awaited_import_def Let_def split: option.splits)
  from assms b show "loadServiceAccounts (w\<lparr>url_fetch := fetch', JSON_parse := parse'\<rparr>) (s\<lparr>env := e'\<rparr>)
                 = (loadServiceAccounts w s)\<lparr>env := e'\<rparr>"
    by (simp add: loadServiceAccounts_def awaited_import_def Let_def split: option.splits)
next
  assume u: "(bundled_module w (awaited_import s) = None
            \<or> bundled_module w (awaited_import s) = Some No_accounts)
          \<and> truthy (SERVICE_ACCOUNTS_URL (env s))
          \<and> url_fetch w (length (url_fetches s)) (str (SERVICE_ACCOUNTS_URL (env s)))
               = Inr \<lparr>url_ok = True, url_json = Some (Accounts accounts)\<rparr>"
  let ?url = "str (SERVICE_ACCOUNTS_URL (env s))"
  from assms u have l: "loadServiceAccounts w s =
      (let s1 = (case bundledServiceAccountsPromise s of
                   None \<Rightarrow> s\<lparr>bundledServiceAccountsPromise := Some (module_imports s),
                              module_imports := Suc (module_imports s)\<rparr>
                 | Some k \<Rightarrow> s);
           s2 = s1\<lparr>bundledServiceAccountsCache := bundled_module w (awaited_import s)\<rparr>;
           s3 = s2\<lparr>url_fetches := url_fetches s @ [?url]\<rparr>
       in s3\<lparr>serviceAccounts := accounts, accountsLoaded := True,
              console := console s3 @ [Log_loaded (length accounts) From_URL]\<rparr>)"
    by (auto simp: loadServiceAccounts_def awaited_import_def load_from_url_def Let_def
        split: option.splits)
  show "serviceAccounts (loadServiceAccounts w s) = accounts"
    "accountsLoaded (loadServiceAccounts w s)"
    "url_fetches (loadServiceAccounts w s) = url_fetches s @ [?url]"
    unfolding l by (simp_all add: Let_def split: option.splits)
  let ?e = "(env s)\<lparr>GDRIVE_SERVICE_ACCOUNTS := joined',
                      GDRIVE_SERVICE_ACCOUNT_n := numbered',
                      GDRIVE_SERVICE_ACCOUNT := legacy'\<rparr>"
  from assms u have "loadServiceAccounts (w\<lparr>JSON_parse := parse'\<rparr>) (s\<lparr>env := ?e\<rparr>) =
      (let s1 = (case bundledServiceAccountsPromise s of
                   None \<Rightarrow> s\<lparr>bundledServiceAccountsPromise := Some (module_imports s),
                              module_imports := Suc (module_imports s)\<rparr>
                 | Some k \<Rightarrow> s);
           s2 = s1\<lparr>bundledServiceAccountsCache := bundled_module w (awaited_import s)\<rparr>;
           s3 = s2\<lparr>url_fetches := url_fetches s @ [?url]\<rparr>
       in s3\<lparr>serviceAccounts := accounts, accountsLoaded := True,
              console := console s3 @ [Log_loaded (length accounts) From_URL]\<rparr>)\<lparr>env := ?e\<rparr>"
    by (auto simp: loadServiceAccounts_def awaited_import_def load_from_url_def Let_def
        split: option.splits)
  then show "loadServiceAccounts (w\<lparr>JSON_parse := parse'\<rparr>) (s\<lparr>env := ?e\<rparr>)
      = (loadServiceAccounts w s)\<lparr>env := ?e\<rparr>"
    unfolding l by simp
qed

theorem C4_first_accounts_array_wins_witness:
  "\<not> accountsLoaded (DriveClient env_with_url)
   \<and> bundled_module world_bundled (awaited_import (DriveClient env_with_url))
       = Some (Accounts [ex_account, ex_account_b])
   \<and> serviceAccounts (loadServiceAccounts world_bundled (DriveClient env_with_url))
       = [ex_account, ex_account_b]
   \<and> url_fetches (loadServiceAccounts world_bundled (DriveClient env_with_url)) = []
   \<and> bundled_module world_url_only (awaited_import (DriveClient env_with_url)) = None
   \<and> truthy (SERVICE_ACCOUNTS_URL (env (DriveClient env_with_url)))
   \<and> serviceAccounts (loadServiceAccounts world_url_only (DriveClient env_with_url))
       = [ex_account_revoked]
   \<and> url_fetches (loadServiceAccounts world_url_only (DriveClient env_with_url))
       = [js ''https://example.org/accounts.json'']"
proof -
  let ?s = "DriveClient env_with_url"
  have nl: "\<not> accountsLoaded ?s" and uf: "url_fetches ?s = []"
    and ev: "env ?s = env_with_url"
    by (simp_all add: DriveClient_def)
  have b: "bundled_module world_bundled (awaited_import ?s) = Some (Accounts [ex_account, ex_account_b])"
    by (simp add: world_bundled_def)
  have n: "bundled_module world_url_only (awaited_import ?s) = None"
    by (simp add: world_url_only_def)
  have t: "truthy (SERVICE_ACCOUNTS_URL env_with_url)"
    and u: "str (SERVICE_ACCOUNTS_URL env_with_url) = js ''https://example.org/accounts.json''"
    by (simp_all add: env_with_url_def truthy_def str_def js_def)
  have f: "url_fetch world_url_only (length (url_fetches ?s)) (str (SERVICE_ACCOUNTS_URL (env ?s)))
      = Inr \<lparr>url_ok = True, url_json = Some (Accounts [ex_account_revoked])\<rparr>"
    by (simp add: world_url_only_def world_bundled_def)
  from C4_first_accounts_array_wins [OF nl, where w = world_bundled
      and accounts = "[ex_account, ex_account_b]"] b
  have first: "serviceAccounts (loadServiceAccounts world_bundled ?s) = [ex_account, ex_account_b]"
    "url_fetches (loadServiceAccounts world_bundled ?s) = []"
    by (simp_all add: uf)
  from C4_first_accounts_array_wins [OF nl, where w = world_url_only
      and accounts = "[ex_account_revoked]"] n t f
  have second: "serviceAccounts (loadServiceAccounts world_url_only ?s) = [ex_account_revoked]"
    "url_fetches (loadServiceAccounts world_url_only ?s) = [js ''https://example.org/accounts.json'']"
    by (simp_all add: uf ev u)
  from nl b n t first second show ?thesis by (simp add: ev)
qed

lemma parse_joined_wellformed:
  "list_all (\<lambda>p. parse p \<noteq> None) (filter (\<lambda>p. p \<noteq> []) (map trim pieces)) \<Longrightarrow>
   parse_joined parse pieces accounts =
     (accounts @ List.map_filter parse (filter (\<lambda>p. p \<noteq> []) (map trim pieces)), False)"
  by (induction pieces arbitrary: accounts) (auto simp: List.map_filter_simps)

lemma numbered_collecting:
  "accounts \<noteq> [] \<Longrightarrow>
   parse_numbered (JSON_parse w) e i accounts warns =
     (accounts @ List.map_filter (numbered_record w e) [i..<100],
      warns @ map Warn_numbered (filter (numbered_malformed w e) [i..<100]))"
proof (induction "100 - i" arbitrary: i accounts warns)
  case 0
  then show ?case by (subst parse_numbered.simps) (simp add: List.map_filter_simps)
next
  case (Suc n)
  then have lt: "i < 100" and n: "n = 100 - Suc i" by simp_all
  from lt have upt: "[i..<100] = i # [Suc i..<100]" by (simp add: upt_conv_Cons)
  show ?case
  proof (cases "truthy (GDRIVE_SERVICE_ACCOUNT_n e i)")
    case False
    with Suc.prems lt Suc.hyps(1) [OF n Suc.prems, of warns] show ?thesis
      by (subst parse_numbered.simps)
         (simp add: upt List.map_filter_simps numbered_record_def numbered_malformed_def)
  next
    case True
    show ?thesis
    proof (cases "JSON_parse w (str (GDRIVE_SERVICE_ACCOUNT_n e i))")
      case None
      with True lt Suc.hyps(1) [OF n Suc.prems, of "warns @ [Warn_numbered i]"] show ?thesis
        by (subst parse_numbered.simps)
           (simp add: upt List.map_filter_simps numbered_record_def numbered_malformed_def)
    next
      case (Some a)
      with True lt Suc.hyps(1) [OF n, of "accounts @ [a]" warns] show ?thesis
        by (subst parse_numbered.simps)
           (simp add: upt List.map_filter_simps numbered_record_def numbered_malformed_def)
    qed
  qed
qed

lemma stops_from_gap:
  "0 < i \<Longrightarrow> i < 100 \<Longrightarrow> \<not> truthy (GDRIVE_SERVICE_ACCOUNT_n e i) \<Longrightarrow> stops_from w e i"
  unfolding stops_from_def by (rule exI [of _ i]) auto

lemma stops_from_end: "100 \<le> i \<Longrightarrow> \<not> stops_from w e i"
  by (auto simp: stops_from_def)

lemma stops_from_step:
  assumes "truthy (GDRIVE_SERVICE_ACCOUNT_n e i) \<or> i = 0"
  shows "stops_from w e i \<longleftrightarrow> numbered_record w e i = None \<and> stops_from w e (Suc i)"
proof
  assume "stops_from w e i"
  then obtain g where g: "i \<le> g" "0 < g" "g < 100" "\<not> truthy (GDRIVE_SERVICE_ACCOUNT_n e g)"
    "\<forall>j. i \<le> j \<and> j < g \<longrightarrow> numbered_record w e j = None"
    by (auto simp: stops_from_def)
  with assms have "g \<noteq> i" by auto
  with g have "Suc i \<le> g" "i < g" by simp_all
  with g show "numbered_record w e i = None \<and> stops_from w e (Suc i)"
    unfolding stops_from_def by (intro conjI exI [of _ g]) auto
next
  assume a: "numbered_record w e i = None \<and> stops_from w e (Suc i)"
  then obtain g where g: "Suc i \<le> g" "0 < g" "g < 100" "\<not> truthy (GDRIVE_SERVICE_ACCOUNT_n e g)"
    "\<forall>j. Suc i \<le> j \<and> j < g \<longrightarrow> numbered_record w e j = None"
    by (auto simp: stops_from_def)
  have "numbered_record w e j = None" if "i \<le> j" "j < g" for j
  proof (cases "j = i")
    case True
    with a show ?thesis by simp
  next
    case False
    with that g show ?thesis by simp
  qed
  with g show "stops_from w e i"
    unfolding stops_from_def by (intro exI [of _ g]) auto
qed

lemma numbered_empty:
  "0 < i \<Longrightarrow>
   fst (parse_numbered (JSON_parse w) e i [] warns) =
     (if stops_from w e i then [] else List.map_filter (numbered_record w e) [i..<100])
   \<and> (\<not> stops_from w e i \<longrightarrow>
        snd (parse_numbered (JSON_parse w) e i [] warns) =
          warns @ map Warn_numbered (filter (numbered_malformed w e) [i..<100]))"
proof (induction "100 - i" arbitrary: i warns)
  case 0
  then have "100 \<le> i" by simp
  then show ?case
    by (subst (1 2) parse_numbered.simps) (simp add: List.map_filter_simps stops_from_end)
next
  case (Suc n)
  then have lt: "i < 100" and n: "n = 100 - Suc i" and pos: "0 < i" by simp_all
  from lt have upt: "[i..<100] = i # [Suc i..<100]" by (simp add: upt_conv_Cons)
  show ?case
  proof (cases "truthy (GDRIVE_SERVICE_ACCOUNT_n e i)")
    case False
    from stops_from_gap [OF pos lt False] have "stops_from w e i" .
    with False lt pos show ?thesis
      by (subst (1 2) parse_numbered.simps) simp
  next
    case True
    note step = stops_from_step [of e i w, OF disjI1 [OF True]]
    show ?thesis
    proof (cases "JSON_parse w (str (GDRIVE_SERVICE_ACCOUNT_n e i))")
      case None
      then have r: "numbered_record w e i = None" by (simp add: numbered_record_def)
      from None True have m: "numbered_malformed w e i" by (simp add: numbered_malformed_def)
      have unfold: "parse_numbered (JSON_parse w) e i [] warns
          = parse_numbered (JSON_parse w) e (Suc i) [] (warns @ [Warn_numbered i])"
        using None True lt by (subst parse_numbered.simps) simp
      from Suc.hyps(1) [OF n, of "warns @ [Warn_numbered i]"] r m step show ?thesis
        unfolding unfold by (simp add: upt List.map_filter_simps)
    next
      case (Some a)
      then have r: "numbered_record w e i = Some a" using True by (simp add: numbered_record_def)
      from Some True have m: "\<not> numbered_malformed w e i" by (simp add: numbered_malformed_def)
      have unfold: "parse_numbered (JSON_parse w) e i [] warns
          = parse_numbered (JSON_parse w) e (Suc i) [a] warns"
        using Some True lt by (subst parse_numbered.simps) simp
      from r step have ns: "\<not> stops_from w e i" by simp
      show ?thesis
        unfolding unfold numbered_collecting [of "[a]", simplified]
        using ns r m by (simp add: upt List.map_filter_simps)
    qed
  qed
qed

text \<open>
  C5, as the claim states it, fails for an environment whose only credential is the
  well-formed numbered key 2: the scan stops at the missing index 1, and the resolved list
  is empty.
\<close>

theorem C5_numbered_gap_counterexample:
  "truthy (GDRIVE_SERVICE_ACCOUNT_n env_gap 2)
   \<and> JSON_parse world_parse (str (GDRIVE_SERVICE_ACCOUNT_n env_gap 2)) = Some ex_account
   \<and> parseServiceAccounts world_parse env_gap = ([], [])"
proof -
  have t: "truthy (GDRIVE_SERVICE_ACCOUNT_n env_gap 2)"
    by (simp add: env_gap_def truthy_def ex_text_a_def js_def)
  have p: "JSON_parse world_parse (str (GDRIVE_SERVICE_ACCOUNT_n env_gap 2)) = Some ex_account"
    by (simp add: env_gap_def str_def world_parse_def)
  have k: "\<not> truthy (GDRIVE_SERVICE_ACCOUNT_n env_gap 0)" "\<not> truthy (GDRIVE_SERVICE_ACCOUNT_n env_gap (Suc 0))"
    "\<not> truthy (GDRIVE_SERVICE_ACCOUNTS env_gap)"
    by (simp_all add: env_gap_def env_empty_def truthy_def)
  have "parse_numbered (JSON_parse world_parse) env_gap 0 [] [] = ([], [])"
    by (subst parse_numbered.simps, simp add: k, subst parse_numbered.simps, simp add: k)
  with k have "parseServiceAccounts world_parse env_gap = ([], [])"
    by (simp add: parseServiceAccounts_def)
  with t p show ?thesis by simp
qed

text \<open>
  C5, amended. When no piece of the delimiter-joined value is malformed, the records of
  the environment-variable method are the parsed pieces of the joined value followed by
  the record of every present well-formed numbered key from 0 to 99, in index order, and
  every present malformed numbered key is logged and skipped; unless the joined value gives
  no record and the scan meets a missing index above 0 before any numbered key has parsed:
  then the scan stops there with no record. The method never aborts resolution: the
  Credential Set counts as loaded afterwards, with however many records, even zero.
\<close>

theorem C5_environment_method:
  assumes "list_all (\<lambda>p. JSON_parse w p \<noteq> None) (joined_pieces e)"
  shows "fst (parseServiceAccounts w e) =
           (if joined_pieces e = [] \<and> stops_from w e 0 then []
            else List.map_filter (JSON_parse w) (joined_pieces e) @
                 List.map_filter (numbered_record w e) [0..<100])
       \<and> (\<not> (joined_pieces e = [] \<and> stops_from w e 0) \<longrightarrow>
            snd (parseServiceAccounts w e) =
              map Warn_numbered (filter (numbered_malformed w e) [0..<100]))
       \<and> accountsLoaded (load_from_environment w s)"
proof -
  let ?J = "List.map_filter (JSON_parse w) (joined_pieces e)"
  have start: "parseServiceAccounts w e = parse_numbered (JSON_parse w) e 0 ?J []"
  proof (cases "truthy (GDRIVE_SERVICE_ACCOUNTS e)")
    case False
    then show ?thesis
      by (simp add: parseServiceAccounts_def joined_pieces_def List.map_filter_simps)
  next
    case True
    with assms have "list_all (\<lambda>p. JSON_parse w p \<noteq> None)
        (filter (\<lambda>p. p \<noteq> []) (map trim (split_str (js ''|||'') [] (str (GDRIVE_SERVICE_ACCOUNTS e)))))"
      by (simp add: joined_pieces_def)
    from parse_joined_wellformed [OF this, of "[]"] True show ?thesis
      by (simp add: parseServiceAccounts_def joined_pieces_def)
  qed
  have J_empty: "?J = [] \<longleftrightarrow> joined_pieces e = []"
    using assms by (cases "joined_pieces e") (auto simp: List.map_filter_simps)
  have upt0: "[0..<100] = 0 # [Suc 0..<100]" by (simp add: upt_conv_Cons)
  have main: "fst (parseServiceAccounts w e) =
           (if joined_pieces e = [] \<and> stops_from w e 0 then []
            else ?J @ List.map_filter (numbered_record w e) [0..<100])
       \<and> (\<not> (joined_pieces e = [] \<and> stops_from w e 0) \<longrightarrow>
            snd (parseServiceAccounts w e) =
              map Warn_numbered (filter (numbered_malformed w e) [0..<100]))"
  proof (cases "joined_pieces e = []")
    case False
    with J_empty have "?J \<noteq> []" by simp
    from numbered_collecting [OF this, of w e 0 "[]"] False show ?thesis
      by (simp add: start)
  next
    case True
    with J_empty have J: "?J = []" by simp
    note step = stops_from_step [of e 0 w, OF disjI2 [OF refl]]
    show ?thesis
    proof (cases "truthy (GDRIVE_SERVICE_ACCOUNT_n e 0)")
      case False
      then have r: "numbered_record w e 0 = None" "\<not> numbered_malformed w e 0"
        by (simp_all add: numbered_record_def numbered_malformed_def)
      have unfold: "parse_numbered (JSON_parse w) e 0 [] [] = parse_numbered (JSON_parse w) e (Suc 0) [] []"
        using False by (subst parse_numbered.simps) simp
      from numbered_empty [of "Suc 0" w e "[]"] r step True show ?thesis
        unfolding start J unfold by (simp add: upt0 List.map_filter_simps)
    next
      case key: True
      show ?thesis
      proof (cases "JSON_parse w (str (GDRIVE_SERVICE_ACCOUNT_n e 0))")
        case None
        with key have r: "numbered_record w e 0 = None" "numbered_malformed w e 0"
          by (simp_all add: numbered_record_def numbered_malformed_def)
        have unfold: "parse_numbered (JSON_parse w) e 0 [] []
            = parse_numbered (JSON_parse w) e (Suc 0) [] [Warn_numbered 0]"
          using key None by (subst parse_numbered.simps) simp
        from numbered_empty [of "Suc 0" w e "[Warn_numbered 0]"] r step True show ?thesis
          unfolding start J unfold by (simp add: upt0 List.map_filter_simps)
      next
        case (Some a)
        with key have r: "numbered_record w e 0 = Some a" "\<not> numbered_malformed w e 0"
          by (simp_all add: numbered_record_def numbered_malformed_def)
        have unfold: "parse_numbered (JSON_parse w) e 0 [] []
            = parse_numbered (JSON_parse w) e (Suc 0) [a] []"
          using key Some by (subst parse_numbered.simps) simp
        from r step have ns: "\<not> stops_from w e 0" by simp
        show ?thesis
          unfolding start J unfold numbered_collecting [of "[a]", simplified]
          using ns r True by (simp add: upt0 List.map_filter_simps)
      qed
    qed
  qed
  moreover have "accountsLoaded (load_from_environment w s)"
    by (simp add: load_from_environment_def Let_def split: prod.splits option.splits)
  ultimately show ?thesis by blast
qed

lemma map_filter_none:
  "(\<And>i. i \<in> set xs \<Longrightarrow> f i = None) \<Longrightarrow> List.map_filter f xs = []"
  by (induction xs) (simp_all add: List.map_filter_simps)

lemma map_filter_app:
  "List.map_filter f (xs @ ys) = List.map_filter f xs @ List.map_filter f ys"
  by (induction xs) (simp_all add: List.map_filter_simps split: option.splits)

lemma filter_none: "(\<And>i. i \<in> set xs \<Longrightarrow> \<not> P i) \<Longrightarrow> filter P xs = []"
  by (induction xs) simp_all

lemma texts_differ: "ex_text_a \<noteq> ex_text_b" "js ''{broken'' \<noteq> ex_text_a" "js ''{broken'' \<noteq> ex_text_b"
  "ex_text_a \<noteq> []" "ex_text_b \<noteq> []"
  by (simp_all add: ex_text_a_def ex_text_b_def js_def)

lemma joined_pieces_env_mixed: "joined_pieces env_mixed = [ex_text_a, ex_text_b]"
proof -
  have "split_str (js ''|||'') [] (ex_text_a @ js ''|||'' @ js '' '' @ ex_text_b)
      = [ex_text_a, js '' '' @ ex_text_b]"
    by (simp add: ex_text_a_def ex_text_b_def js_def)
  moreover have "trim ex_text_a = ex_text_a" "trim (js '' '' @ ex_text_b) = ex_text_b"
    by (simp_all add: trim_def ex_text_a_def ex_text_b_def js_def is_js_space_def)
  ultimately show ?thesis
    by (simp add: joined_pieces_def env_mixed_def truthy_def str_def texts_differ)
qed

theorem C5_environment_method_witness:
  "list_all (\<lambda>p. JSON_parse world_parse p \<noteq> None) (joined_pieces env_mixed)
   \<and> parseServiceAccounts world_parse env_mixed
       = ([ex_account, ex_account_b, ex_account_b, ex_account], [Warn_numbered 0])"
proof -
  let ?w = world_parse and ?e = env_mixed
  have parse: "JSON_parse ?w ex_text_a = Some ex_account" "JSON_parse ?w ex_text_b = Some ex_account_b"
    "JSON_parse ?w (js ''{broken'') = None"
    using texts_differ by (simp_all add: world_parse_def)
  have wf: "list_all (\<lambda>p. JSON_parse ?w p \<noteq> None) (joined_pieces ?e)"
    by (simp add: joined_pieces_env_mixed parse)
  have split: "[0..<100] = [0, 1, 2, 3] @ [4..<100]"
    by (simp add: upt_rec [of 0] upt_rec [of 1] upt_rec [of 2] upt_rec [of 3] upt_rec [of "Suc 0"]
        upt_rec [of "Suc (Suc 0)"] upt_rec [of "Suc (Suc (Suc 0))"] eval_nat_numeral)
  have keys: "GDRIVE_SERVICE_ACCOUNT_n ?e 0 = Some (js ''{broken'')"
    "GDRIVE_SERVICE_ACCOUNT_n ?e 1 = Some ex_text_b"
    "GDRIVE_SERVICE_ACCOUNT_n ?e 2 = None"
    "GDRIVE_SERVICE_ACCOUNT_n ?e 3 = Some ex_text_a"
    "\<And>i. 4 \<le> i \<Longrightarrow> GDRIVE_SERVICE_ACCOUNT_n ?e i = None"
    by (simp_all add: env_mixed_def)
  have broken: "js ''{broken'' \<noteq> []" by (simp add: js_def)
  have r: "numbered_record ?w ?e 0 = None" "numbered_record ?w ?e (Suc 0) = Some ex_account_b"
    "numbered_record ?w ?e 2 = None" "numbered_record ?w ?e 3 = Some ex_account"
    "\<And>i. 4 \<le> i \<Longrightarrow> numbered_record ?w ?e i = None"
    using keys by (simp_all add: numbered_record_def truthy_def str_def parse texts_differ broken)
  have m: "numbered_malformed ?w ?e 0" "\<not> numbered_malformed ?w ?e (Suc 0)"
    "\<not> numbered_malformed ?w ?e 2" "\<not> numbered_malformed ?w ?e 3"
    "\<And>i. 4 \<le> i \<Longrightarrow> \<not> numbered_malformed ?w ?e i"
    using keys by (simp_all add: numbered_malformed_def truthy_def str_def parse texts_differ broken)
  have recs: "List.map_filter (numbered_record ?w ?e) [0..<100] = [ex_account_b, ex_account]"
    unfolding split map_filter_app
    by (simp add: List.map_filter_simps r map_filter_none)
  have warns: "filter (numbered_malformed ?w ?e) [0..<100] = [0]"
    unfolding split filter_append
    by (simp add: m filter_none)
  from C5_environment_method [OF wf, where s = "DriveClient env_mixed"]
  have "fst (parseServiceAccounts ?w ?e) = [ex_account, ex_account_b, ex_account_b, ex_account]"
    and "snd (parseServiceAccounts ?w ?e) = [Warn_numbered 0]"
    by (simp_all add: joined_pieces_env_mixed List.map_filter_simps parse recs warns)
  then have "parseServiceAccounts ?w ?e
      = ([ex_account, ex_account_b, ex_account_b, ex_account], [Warn_numbered 0])"
    by (cases "parseServiceAccounts ?w ?e") simp
  with wf show ?thesis by simp
qed

text \<open>
  The loop over the joined value is left at the first piece that does not parse: the
  well-formed piece after it is never parsed.
\<close>

lemma parseServiceAccounts_malformed_piece_ends_loop:
  "parseServiceAccounts world_parse env_joined_broken = ([], [Warn_joined])"
proof -
  have sp: "split_str (js ''|||'') [] (js ''{broken'' @ js ''|||'' @ ex_text_a) = [js ''{broken'', ex_text_a]"
    by (simp add: ex_text_a_def js_def)
  have tr: "trim (js ''{broken'') = js ''{broken''"
    by (simp add: trim_def js_def is_js_space_def)
  have broken: "js ''{broken'' \<noteq> []" by (simp add: js_def)
  have parse: "JSON_parse world_parse (js ''{broken'') = None"
    using texts_differ by (simp add: world_parse_def)
  have k: "truthy (GDRIVE_SERVICE_ACCOUNTS env_joined_broken)"
    "str (GDRIVE_SERVICE_ACCOUNTS env_joined_broken) = js ''{broken'' @ js ''|||'' @ ex_text_a"
    "\<not> truthy (GDRIVE_SERVICE_ACCOUNT_n env_joined_broken 0)"
    "\<not> truthy (GDRIVE_SERVICE_ACCOUNT_n env_joined_broken (Suc 0))"
    by (simp_all add: env_joined_broken_def env_empty_def truthy_def str_def broken)
  have "parse_numbered (JSON_parse world_parse) env_joined_broken 0 [] [Warn_joined] = ([], [Warn_joined])"
    by (subst parse_numbered.simps, simp add: k, subst parse_numbered.simps, simp add: k)
  then show ?thesis
    by (simp add: parseServiceAccounts_def k sp tr broken parse)
qed

section \<open>Properties of two racing callers\<close>

text \<open>A caller that runs alone does what \<open>loadServiceAccounts\<close> does.\<close>

lemma run_alone_is_loadServiceAccounts:
  "run_alone w 4 (At_entry, s) = (Returned, loadServiceAccounts w s)"
  by (simp add: eval_nat_numeral load_step_def loadServiceAccounts_def load_from_url_def Let_def
      split: option.splits accounts_doc.splits sum.splits)

lemma load_from_environment_frame:
  "url_fetches (load_from_environment w s) = url_fetches s"
  "module_imports (load_from_environment w s) = module_imports s"
  "bundledServiceAccountsPromise (load_from_environment w s) = bundledServiceAccountsPromise s"
  "accountsLoaded (load_from_environment w s)"
  by (simp_all add: load_from_environment_def Let_def split: prod.splits option.splits)

lemma load_step_At_entry:
  "load_step w At_entry s =
     (if accountsLoaded s then (Returned, s)
      else (Await_import (awaited_import s),
            case bundledServiceAccountsPromise s of
              None \<Rightarrow> s\<lparr>bundledServiceAccountsPromise := Some (module_imports s),
                         module_imports := Suc (module_imports s)\<rparr>
            | Some k \<Rightarrow> s))"
  by (simp add: load_step_def awaited_import_def split: option.splits)

lemma load_step_Returned: "load_step w Returned s = (Returned, s)"
  by (simp add: load_step_def)

lemma load_step_import_frame:
  assumes "load_step w pc s = (pc', s')"
  shows "awaited_import s' = awaited_import s"
    and "module_imports s' = module_imports s
         \<or> module_imports s' = Suc (module_imports s) \<and> bundledServiceAccountsPromise s = None"
    and "bundledServiceAccountsPromise s \<noteq> None \<Longrightarrow> bundledServiceAccountsPromise s' \<noteq> None"
    and "module_imports s' \<noteq> module_imports s \<Longrightarrow> bundledServiceAccountsPromise s' \<noteq> None"
    and "pc' = Await_import k \<Longrightarrow> k = awaited_import s"
proof -
  show "awaited_import s' = awaited_import s"
  proof (cases pc)
    case At_entry
    with assms show ?thesis
      by (auto simp: load_step_At_entry awaited_import_def split: if_splits option.splits)
  next
    case Returned
    with assms show ?thesis by (simp add: load_step_Returned)
  qed (use assms in \<open>auto simp: load_step_def awaited_import_def Let_def load_from_environment_frame
        split: if_splits option.splits accounts_doc.splits sum.splits\<close>)
  show "module_imports s' = module_imports s
         \<or> module_imports s' = Suc (module_imports s) \<and> bundledServiceAccountsPromise s = None"
  proof (cases pc)
    case At_entry
    with assms show ?thesis
      by (auto simp: load_step_At_entry split: if_splits option.splits)
  next
    case Returned
    with assms show ?thesis by (simp add: load_step_Returned)
  qed (use assms in \<open>auto simp: load_step_def Let_def load_from_environment_frame
        split: if_splits option.splits accounts_doc.splits sum.splits\<close>)
  show "bundledServiceAccountsPromise s' \<noteq> None" if "bundledServiceAccountsPromise s \<noteq> None"
  proof (cases pc)
    case At_entry
    with assms that show ?thesis
      by (auto simp: load_step_At_entry split: if_splits option.splits)
  next
    case Returned
    with assms that show ?thesis by (simp add: load_step_Returned)
  qed (use assms that in \<open>auto simp: load_step_def Let_def load_from_environment_frame
        split: if_splits option.splits accounts_doc.splits sum.splits\<close>)
  show "bundledServiceAccountsPromise s' \<noteq> None" if "module_imports s' \<noteq> module_imports s"
  proof (cases pc)
    case At_entry
    with assms that show ?thesis
      by (auto simp: load_step_At_entry split: if_splits option.splits)
  next
    case Returned
    with assms that show ?thesis by (simp add: load_step_Returned)
  qed (use assms that in \<open>auto simp: load_step_def Let_def load_from_environment_frame
        split: if_splits option.splits accounts_doc.splits sum.splits\<close>)
  show "k = awaited_import s" if "pc' = Await_import k"
  proof (cases pc)
    case At_entry
    with assms that show ?thesis
      by (auto simp: load_step_At_entry split: if_splits)
  next
    case Returned
    with assms that show ?thesis by (simp add: load_step_Returned)
  qed (use assms that in \<open>auto simp: load_step_def Let_def
        split: if_splits option.splits accounts_doc.splits sum.splits\<close>)
qed

lemma load_step_fetch_budget:
  assumes "load_step w pc s = (pc', s')"
  shows "length (url_fetches s') + unfetched pc' \<le> length (url_fetches s) + unfetched pc"
proof (cases pc)
  case At_entry
  with assms show ?thesis
    by (auto simp: load_step_At_entry unfetched_def split: if_splits option.splits)
next
  case Returned
  with assms show ?thesis by (simp add: load_step_Returned)
qed (use assms in \<open>auto simp: load_step_def Let_def unfetched_def load_from_environment_frame
      split: if_splits option.splits accounts_doc.splits sum.splits\<close>)

lemma load_step_bundled:
  assumes "load_step w pc s = (pc', s')"
    and "bundled_module w (awaited_import s) = Some (Accounts accounts)"
    and "before_fetch (awaited_import s) pc"
    and "accountsLoaded s \<longrightarrow> serviceAccounts s = accounts"
    and "pc = Returned \<longrightarrow> accountsLoaded s"
  shows "url_fetches s' = url_fetches s"
    and "before_fetch (awaited_import s) pc'"
    and "accountsLoaded s \<longrightarrow> accountsLoaded s'"
    and "accountsLoaded s' \<longrightarrow> serviceAccounts s' = accounts"
    and "pc' = Returned \<longrightarrow> accountsLoaded s'"
proof -
  from assms(3) consider "pc = At_entry" | "pc = Await_import (awaited_import s)" | "pc = Returned"
    by (auto simp: before_fetch_def)
  then have "url_fetches s' = url_fetches s \<and> before_fetch (awaited_import s) pc'
      \<and> (accountsLoaded s \<longrightarrow> accountsLoaded s')
      \<and> (accountsLoaded s' \<longrightarrow> serviceAccounts s' = accounts)
      \<and> (pc' = Returned \<longrightarrow> accountsLoaded s')"
  proof cases
    case 1
    with assms(1,4) show ?thesis
      by (auto simp: load_step_At_entry before_fetch_def split: if_splits option.splits)
  next
    case 2
    with assms(1,2) show ?thesis
      by (auto simp: load_step_def before_fetch_def Let_def)
  next
    case 3
    with assms(1,4,5) show ?thesis
      by (auto simp: load_step_Returned before_fetch_def)
  qed
  then show "url_fetches s' = url_fetches s"
    and "before_fetch (awaited_import s) pc'"
    and "accountsLoaded s \<longrightarrow> accountsLoaded s'"
    and "accountsLoaded s' \<longrightarrow> serviceAccounts s' = accounts"
    and "pc' = Returned \<longrightarrow> accountsLoaded s'"
    by blast+
qed

lemma race_inv_sym: "race_inv w s0 pc1 pc2 s = race_inv w s0 pc2 pc1 s"
  unfolding race_inv_def by (auto simp: add_ac)

lemma race_inv_init: "\<not> accountsLoaded s0 \<Longrightarrow> race_inv w s0 At_entry At_entry s0"
  by (simp add: race_inv_def unfetched_def before_fetch_def)

lemma race_inv_step:
  assumes inv: "race_inv w s0 pc1 pc2 s" and step: "load_step w pc1 s = (pc1', s')"
  shows "race_inv w s0 pc1' pc2 s'"
proof -
  note fr = load_step_import_frame [OF step]
  from inv have a: "awaited_import s = awaited_import s0"
    and m: "module_imports s = module_imports s0
      \<or> module_imports s = Suc (module_imports s0) \<and> bundledServiceAccountsPromise s \<noteq> None"
    and o: "bundledServiceAccountsPromise s0 \<noteq> None \<longrightarrow>
        bundledServiceAccountsPromise s \<noteq> None \<and> module_imports s = module_imports s0"
    and k: "\<And>k. pc1 = Await_import k \<or> pc2 = Await_import k \<Longrightarrow> k = awaited_import s0"
    and u: "length (url_fetches s) + unfetched pc1 + unfetched pc2 \<le> length (url_fetches s0) + 2"
    unfolding race_inv_def by blast+
  have 1: "awaited_import s' = awaited_import s0" using fr(1) a by simp
  have 2: "module_imports s' = module_imports s0
      \<or> module_imports s' = Suc (module_imports s0) \<and> bundledServiceAccountsPromise s' \<noteq> None"
    using m fr(2) fr(3) fr(4) by metis
  have 6: "bundledServiceAccountsPromise s0 \<noteq> None \<longrightarrow>
        bundledServiceAccountsPromise s' \<noteq> None \<and> module_imports s' = module_imports s0"
    using o fr(2) fr(3) by metis
  have 3: "k = awaited_import s0" if "pc1' = Await_import k \<or> pc2 = Await_import k" for k
    using that fr(5) [of k] a k [of k] by auto
  have 4: "length (url_fetches s') + unfetched pc1' + unfetched pc2 \<le> length (url_fetches s0) + 2"
    using load_step_fetch_budget [OF step] u by simp
  have 5: "url_fetches s' = url_fetches s0
      \<and> before_fetch (awaited_import s0) pc1' \<and> before_fetch (awaited_import s0) pc2
      \<and> (accountsLoaded s' \<longrightarrow> serviceAccounts s' = accounts)
      \<and> (pc1' = Returned \<or> pc2 = Returned \<longrightarrow> accountsLoaded s')"
    if b: "bundled_module w (awaited_import s0) = Some (Accounts accounts)" for accounts
  proof -
    from inv b have d: "url_fetches s = url_fetches s0"
      "before_fetch (awaited_import s0) pc1" "before_fetch (awaited_import s0) pc2"
      "accountsLoaded s \<longrightarrow> serviceAccounts s = accounts"
      "pc1 = Returned \<or> pc2 = Returned \<longrightarrow> accountsLoaded s"
      unfolding race_inv_def by blast+
    have "bundled_module w (awaited_import s) = Some (Accounts accounts)"
      "before_fetch (awaited_import s) pc1" "pc1 = Returned \<longrightarrow> accountsLoaded s"
      using a b d by simp_all
    note bs = load_step_bundled [OF step this(1) this(2) d(4) this(3)]
    from bs d a show ?thesis by auto
  qed
  from 1 2 3 4 5 6 show ?thesis unfolding race_inv_def by blast
qed

lemma race_inv_interleave:
  "race_inv w s0 pc1 pc2 s \<Longrightarrow> interleave w schedule (pc1, pc2, s) = (pc1', pc2', s')
     \<Longrightarrow> race_inv w s0 pc1' pc2' s'"
proof (induction schedule arbitrary: pc1 pc2 s)
  case Nil
  then show ?case by simp
next
  case (Cons first rest)
  show ?case
  proof (cases first)
    case True
    obtain q t where st: "load_step w pc1 s = (q, t)" by (cases "load_step w pc1 s")
    from Cons.prems(1) st have "race_inv w s0 q pc2 t" by (rule race_inv_step)
    moreover from Cons.prems(2) True st have "interleave w rest (q, pc2, t) = (pc1', pc2', s')"
      by simp
    ultimately show ?thesis by (rule Cons.IH)
  next
    case False
    obtain q t where st: "load_step w pc2 s = (q, t)" by (cases "load_step w pc2 s")
    from Cons.prems(1) have "race_inv w s0 pc2 pc1 s" by (simp add: race_inv_sym)
    from this st have "race_inv w s0 q pc1 t" by (rule race_inv_step)
    then have "race_inv w s0 pc1 q t" by (simp add: race_inv_sym)
    moreover from Cons.prems(2) False st have "interleave w rest (pc1, q, t) = (pc1', pc2', s')"
      by simp
    ultimately show ?thesis by (rule Cons.IH)
  qed
qed

lemma awaits_left_step:
  assumes "load_step w pc s = (pc', s')"
  shows "awaits_left pc' \<le> awaits_left pc - 1"
proof (cases pc)
  case At_entry
  with assms show ?thesis by (auto simp: load_step_At_entry awaits_left_def split: if_splits)
next
  case Returned
  with assms show ?thesis by (simp add: load_step_Returned awaits_left_def)
qed (use assms in \<open>auto simp: load_step_def awaits_left_def Let_def
      split: if_splits option.splits accounts_doc.splits sum.splits\<close>)

lemma awaits_left_interleave:
  "interleave w schedule (pc1, pc2, s) = (pc1', pc2', s')
     \<Longrightarrow> awaits_left pc1' \<le> awaits_left pc1 - length (filter (\<lambda>b. b) schedule)
       \<and> awaits_left pc2' \<le> awaits_left pc2 - length (filter (\<lambda>b. \<not> b) schedule)"
proof (induction schedule arbitrary: pc1 pc2 s)
  case Nil
  then show ?case by simp
next
  case (Cons first rest)
  show ?case
  proof (cases first)
    case True
    obtain q t where st: "load_step w pc1 s = (q, t)" by (cases "load_step w pc1 s")
    from Cons.prems True st have "interleave w rest (q, pc2, t) = (pc1', pc2', s')" by simp
    from Cons.IH [OF this] awaits_left_step [OF st] True show ?thesis by auto
  next
    case False
    obtain q t where st: "load_step w pc2 s = (q, t)" by (cases "load_step w pc2 s")
    from Cons.prems False st have "interleave w rest (pc1, q, t) = (pc1', pc2', s')" by simp
    from Cons.IH [OF this] awaits_left_step [OF st] False show ?thesis by auto
  qed
qed

lemma awaits_left_0: "awaits_left pc = 0 \<longleftrightarrow> pc = Returned"
  by (simp add: awaits_left_def split: load_pc.splits)

text \<open>
  C6, amended. Only the import of the bundled collection is shared: whatever the order in
  which two callers of an unresolved client take their steps, the import is evaluated at
  most once more, and not at all when its promise exists already (it is a variable of the
  module, shared by every client of the process), every caller suspended at it awaits
  that same import (and so receives its one outcome, a present module or the \<open>null\<close>
  of a failed import), each caller
  fetches the URL at most once, each caller has returned after four steps of its own, and
  when the bundled collection has an \<open>accounts\<close> array no fetch is issued and a caller
  that has returned finds that array as the Credential Set.
\<close>

theorem C6_shared_import:
  assumes "\<not> accountsLoaded s0"
    and "interleave w schedule (At_entry, At_entry, s0) = (pc1, pc2, s)"
  shows "module_imports s \<le> Suc (module_imports s0)
       \<and> (bundledServiceAccountsPromise s0 \<noteq> None \<longrightarrow> module_imports s = module_imports s0)
       \<and> (\<forall>k. pc1 = Await_import k \<or> pc2 = Await_import k \<longrightarrow> k = awaited_import s0)
       \<and> length (url_fetches s) \<le> length (url_fetches s0) + 2
       \<and> (4 \<le> length (filter (\<lambda>b. b) schedule) \<longrightarrow> pc1 = Returned)
       \<and> (4 \<le> length (filter (\<lambda>b. \<not> b) schedule) \<longrightarrow> pc2 = Returned)
       \<and> (bundled_module w (awaited_import s0) = Some (Accounts accounts) \<longrightarrow>
            url_fetches s = url_fetches s0
          \<and> (pc1 = Returned \<or> pc2 = Returned \<longrightarrow> accountsLoaded s \<and> serviceAccounts s = accounts))"
proof -
  have inv: "race_inv w s0 pc1 pc2 s"
    using race_inv_init [OF assms(1)] assms(2) by (rule race_inv_interleave)
  note left = awaits_left_interleave [OF assms(2)]
  have "module_imports s \<le> Suc (module_imports s0)"
    using inv unfolding race_inv_def by auto
  moreover have "bundledServiceAccountsPromise s0 \<noteq> None \<longrightarrow> module_imports s = module_imports s0"
    using inv unfolding race_inv_def by blast
  moreover have "\<forall>k. pc1 = Await_import k \<or> pc2 = Await_import k \<longrightarrow> k = awaited_import s0"
    using inv unfolding race_inv_def by blast
  moreover have "length (url_fetches s) \<le> length (url_fetches s0) + 2"
    using inv unfolding race_inv_def by auto
  moreover have "4 \<le> length (filter (\<lambda>b. b) schedule) \<longrightarrow> pc1 = Returned"
    using left by (auto simp: awaits_left_def awaits_left_0 [symmetric])
  moreover have "4 \<le> length (filter (\<lambda>b. \<not> b) schedule) \<longrightarrow> pc2 = Returned"
    using left by (auto simp: awaits_left_def awaits_left_0 [symmetric])
  moreover have "bundled_module w (awaited_import s0) = Some (Accounts accounts) \<longrightarrow>
            url_fetches s = url_fetches s0
          \<and> (pc1 = Returned \<or> pc2 = Returned \<longrightarrow> accountsLoaded s \<and> serviceAccounts s = accounts)"
    using inv unfolding race_inv_def by blast
  ultimately show ?thesis by blast
qed

lemma url_truthy: "truthy (SERVICE_ACCOUNTS_URL env_with_url)"
  by (simp add: env_with_url_def env_empty_def truthy_def js_def)

text \<open>
  C6, as the claim states it, fails when there is no bundled collection and a URL is
  configured: two callers that both start before either has finished each fetch the URL,
  so it is queried twice, and when the two answers differ the first caller returns with
  one Credential Set and the second replaces it by another.
\<close>

theorem C6_racing_callers_counterexample:
  "interleave world_url_rotating [True, False, True, False, True, True]
       (At_entry, At_entry, DriveClient env_with_url)
     = (Returned,
        Await_fetch 1 (js ''https://example.org/accounts.json''),
        (DriveClient env_with_url)
          \<lparr>serviceAccounts := [ex_account], accountsLoaded := True,
           bundledServiceAccountsPromise := Some 0, module_imports := 1,
           url_fetches := [js ''https://example.org/accounts.json'',
                           js ''https://example.org/accounts.json''],
           console := [Log_loaded 1 From_URL]\<rparr>)
   \<and> interleave world_url_rotating [True, False, True, False, True, True, False, False]
       (At_entry, At_entry, DriveClient env_with_url)
     = (Returned, Returned,
        (DriveClient env_with_url)
          \<lparr>serviceAccounts := [ex_account_b], accountsLoaded := True,
           bundledServiceAccountsPromise := Some 0, module_imports := 1,
           url_fetches := [js ''https://example.org/accounts.json'',
                           js ''https://example.org/accounts.json''],
           console := [Log_loaded 1 From_URL, Log_loaded 1 From_URL]\<rparr>)
   \<and> [ex_account] \<noteq> [ex_account_b]"
  by (simp add: load_step_def Let_def world_url_rotating_def world_url_only_def world_bundled_def
      world_one_revoked_def DriveClient_def env_with_url_def env_empty_def truthy_def str_def
      ex_account_def ex_account_b_def js_def)

theorem C6_shared_import_witness:
  "\<not> accountsLoaded (DriveClient env_with_url)
   \<and> interleave world_bundled [True, False, False, True]
        (At_entry, At_entry, DriveClient env_with_url)
      = (Returned, Returned,
         (DriveClient env_with_url)
           \<lparr>serviceAccounts := [ex_account, ex_account_b], accountsLoaded := True,
            bundledServiceAccountsCache := Some (Accounts [ex_account, ex_account_b]),
            bundledServiceAccountsPromise := Some 0, module_imports := 1,
            console := [Log_loaded 2 Bundled_JSON, Log_loaded 2 Bundled_JSON]\<rparr>)
   \<and> url_fetches (DriveClient env_with_url) = []"
  using C6_shared_import [of "DriveClient env_with_url" world_bundled "[True, False, False, True]"
      Returned Returned
      "(DriveClient env_with_url)
           \<lparr>serviceAccounts := [ex_account, ex_account_b], accountsLoaded := True,
            bundledServiceAccountsCache := Some (Accounts [ex_account, ex_account_b]),
            bundledServiceAccountsPromise := Some 0, module_imports := 1,
            console := [Log_loaded 2 Bundled_JSON, Log_loaded 2 Bundled_JSON]\<rparr>" "[ex_account, ex_account_b]"]
  by (simp add: load_step_def Let_def world_bundled_def
      world_one_revoked_def DriveClient_def env_with_url_def env_empty_def)

end
